theory Spec2Isabelle
  imports Main
begin

section \<open>Python strings\<close>

text \<open>
  A Python \<^verbatim>\<open>str\<close> is a sequence of Unicode code points. It is modelled as a list of
  natural numbers, one per code point, so that the development covers every input string
  and not only 8-bit ones. Literals of the source are written with \<open>str\<close>.
\<close>

type_synonym codepoint = nat
type_synonym pystr = "codepoint list"

definition str :: "string \<Rightarrow> pystr" where
  "str s = map of_char s"

text \<open>
  \<^verbatim>\<open>Py_UNICODE_ISSPACE\<close>: the characters that \<^verbatim>\<open>\s\<close> matches in a \<^verbatim>\<open>str\<close> pattern and that
  \<^verbatim>\<open>str.strip()\<close> removes.
\<close>

definition isspace :: "codepoint \<Rightarrow> bool" where
  "isspace c \<longleftrightarrow>
     (9 \<le> c \<and> c \<le> 13) \<or> (28 \<le> c \<and> c \<le> 32) \<or> c = 133 \<or> c = 160 \<or> c = 5760 \<or>
     (8192 \<le> c \<and> c \<le> 8202) \<or> c = 8232 \<or> c = 8233 \<or> c = 8239 \<or> c = 8287 \<or> c = 12288"

definition slash :: codepoint where
  "slash = 47"

definition dquote :: codepoint where
  "dquote = 34"

text \<open>\<^verbatim>\<open>s.lstrip("/")\<close>\<close>

definition lstrip_slash :: "pystr \<Rightarrow> pystr" where
  "lstrip_slash s = dropWhile (\<lambda>c. c = slash) s"

text \<open>\<^verbatim>\<open>s.strip()\<close>\<close>

definition strip :: "pystr \<Rightarrow> pystr" where
  "strip s = rev (dropWhile isspace (rev (dropWhile isspace s)))"

section \<open>The regular expressions of \<^verbatim>\<open>parse_file_blocks\<close>\<close>

text \<open>
  The two patterns of the source are sequences of single-character atoms, each matched
  once or under one of the quantifiers \<^verbatim>\<open>+\<close>, \<^verbatim>\<open>*\<close> (greedy) and \<^verbatim>\<open>*?\<close> (lazy); a capturing
  group always encloses exactly one quantified atom. \<open>AnyChar\<close> is \<^verbatim>\<open>.\<close> under
  \<^verbatim>\<open>re.DOTALL\<close>, \<open>NotChar c\<close> is \<^verbatim>\<open>[^c]\<close>, \<open>Space\<close> is \<^verbatim>\<open>\s\<close>.
\<close>

datatype atom = Lit codepoint | Space | NotChar codepoint | AnyChar

datatype quant = Once | Plus | Star | LazyStar

type_synonym item = "atom \<times> quant \<times> bool"

type_synonym pattern = "item list"

fun atom_ok :: "atom \<Rightarrow> codepoint \<Rightarrow> bool" where
  "atom_ok (Lit a) c \<longleftrightarrow> c = a"
| "atom_ok Space c \<longleftrightarrow> isspace c"
| "atom_ok (NotChar a) c \<longleftrightarrow> c \<noteq> a"
| "atom_ok AnyChar c \<longleftrightarrow> True"

definition lits :: "string \<Rightarrow> pattern" where
  "lits s = map (\<lambda>c. (Lit (of_char c), Once, False)) s"

text \<open>\<^verbatim>\<open><FILE\s+path="([^"]+)">(.*?)</FILE>\<close> with \<^verbatim>\<open>re.DOTALL\<close>\<close>

definition file_pattern :: pattern where
  "file_pattern =
     lits ''<FILE'' @ [(Space, Plus, False)] @ lits ''path='' @ [(Lit dquote, Once, False)] @
     [(NotChar dquote, Plus, True)] @ [(Lit dquote, Once, False)] @ lits ''>'' @
     [(AnyChar, LazyStar, True)] @ lits ''</FILE>''"

text \<open>\<^verbatim>\<open><DELETE\s+path="([^"]+)"\s*/>\<close>\<close>

definition delete_pattern :: pattern where
  "delete_pattern =
     lits ''<DELETE'' @ [(Space, Plus, False)] @ lits ''path='' @ [(Lit dquote, Once, False)] @
     [(NotChar dquote, Plus, True)] @ [(Lit dquote, Once, False)] @ [(Space, Star, False)] @
     lits ''/>''"

text \<open>
  The backtracking matcher. \<open>match_here p s\<close> matches \<open>p\<close> at the start of \<open>s\<close> and
  returns the text consumed by each item of \<open>p\<close>, in order, and the rest of \<open>s\<close>.
  A greedy quantifier first tries to take one more character and falls back to the
  rest of the pattern when that fails; a lazy one tries the rest of the pattern first.
\<close>

type_synonym mres = "(pystr list \<times> pystr) option"

fun push :: "codepoint \<Rightarrow> mres \<Rightarrow> mres" where
  "push c None = None"
| "push c (Some ([], rest)) = Some ([[c]], rest)"
| "push c (Some (g # gs, rest)) = Some ((c # g) # gs, rest)"

fun emit :: "pystr \<Rightarrow> mres \<Rightarrow> mres" where
  "emit g None = None"
| "emit g (Some (gs, rest)) = Some (g # gs, rest)"

fun match_here :: "pattern \<Rightarrow> pystr \<Rightarrow> mres" where
  "match_here [] s = Some ([], s)"
| "match_here ((a, Once, cap) # p) [] = None"
| "match_here ((a, Once, cap) # p) (c # s) =
     (if atom_ok a c then emit [c] (match_here p s) else None)"
| "match_here ((a, Plus, cap) # p) [] = None"
| "match_here ((a, Plus, cap) # p) (c # s) =
     (if atom_ok a c then push c (match_here ((a, Star, cap) # p) s) else None)"
| "match_here ((a, Star, cap) # p) [] = emit [] (match_here p [])"
| "match_here ((a, Star, cap) # p) (c # s) =
     (if atom_ok a c
      then (case push c (match_here ((a, Star, cap) # p) s) of
              Some r \<Rightarrow> Some r
            | None \<Rightarrow> emit [] (match_here p (c # s)))
      else emit [] (match_here p (c # s)))"
| "match_here ((a, LazyStar, cap) # p) [] = emit [] (match_here p [])"
| "match_here ((a, LazyStar, cap) # p) (c # s) =
     (case emit [] (match_here p (c # s)) of
        Some r \<Rightarrow> Some r
      | None \<Rightarrow> if atom_ok a c then push c (match_here ((a, LazyStar, cap) # p) s) else None)"

text \<open>The captured groups of a match: the texts of the capturing items, in order.\<close>

fun captures :: "pattern \<Rightarrow> pystr list \<Rightarrow> pystr list" where
  "captures ((a, q, cap) # p) (g # gs) = (if cap then g # captures p gs else captures p gs)"
| "captures p gs = []"

text \<open>
  A match object: \<^verbatim>\<open>m.start()\<close>, \<^verbatim>\<open>m.end()\<close> and the groups 1, 2, ... of the match.
  \<^verbatim>\<open>m.group(i)\<close> raises IndexError when the pattern has no group \<open>i\<close>.
\<close>

record match_obj =
  m_start :: nat
  m_end :: nat
  m_groups :: "pystr list"

datatype pyerror = IndexError

definition group :: "match_obj \<Rightarrow> nat \<Rightarrow> pyerror + pystr" where
  "group m i =
     (if 1 \<le> i \<and> i \<le> length (m_groups m) then Inr (m_groups m ! (i - 1)) else Inl IndexError)"

text \<open>
  \<^verbatim>\<open>pattern.finditer(s)\<close>: the non-overlapping matches, scanning from left to right;
  \<open>off\<close> is the position of \<open>s\<close> in the whole text. After a match the scan resumes at
  its end; an empty match moves the scan one character on.
\<close>

function finditer_from :: "pattern \<Rightarrow> nat \<Rightarrow> pystr \<Rightarrow> match_obj list" where
  "finditer_from p off s =
     (case match_here p s of
        None \<Rightarrow> (case s of [] \<Rightarrow> [] | c # s' \<Rightarrow> finditer_from p (off + 1) s')
      | Some (gs, rest) \<Rightarrow>
          \<lparr>m_start = off, m_end = off + (length s - length rest), m_groups = captures p gs\<rparr> #
          (if length rest < length s
           then finditer_from p (off + (length s - length rest)) rest
           else (case s of [] \<Rightarrow> [] | c # s' \<Rightarrow> finditer_from p (off + 1) s')))"
  by pat_completeness auto
termination
  by (relation "measure (\<lambda>(p, off, s). length s)") auto

declare finditer_from.simps [simp del]

definition finditer :: "pattern \<Rightarrow> pystr \<Rightarrow> match_obj list" where
  "finditer p s = finditer_from p 0 s"

section \<open>\<^verbatim>\<open>parse_file_blocks\<close>\<close>

record change =
  action :: string
  path :: pystr
  content :: pystr

text \<open>The two loops of the source, each appending one dictionary per match.\<close>

fun file_loop :: "match_obj list \<Rightarrow> change list \<Rightarrow> pyerror + change list" where
  "file_loop [] changes = Inr changes"
| "file_loop (m # ms) changes =
     (case group m 1 of
        Inl e \<Rightarrow> Inl e
      | Inr g1 \<Rightarrow>
          (case group m 2 of
             Inl e \<Rightarrow> Inl e
           | Inr g2 \<Rightarrow>
               file_loop ms
                 (changes @ [\<lparr>action = ''write'', path = lstrip_slash g1, content = strip g2\<rparr>])))"

fun delete_loop :: "match_obj list \<Rightarrow> change list \<Rightarrow> pyerror + change list" where
  "delete_loop [] changes = Inr changes"
| "delete_loop (m # ms) changes =
     (case group m 1 of
        Inl e \<Rightarrow> Inl e
      | Inr g1 \<Rightarrow>
          delete_loop ms
            (changes @ [\<lparr>action = ''delete'', path = lstrip_slash g1, content = []\<rparr>]))"

definition parse_file_blocks :: "pystr \<Rightarrow> pyerror + change list" where
  "parse_file_blocks response =
     (case file_loop (finditer file_pattern response) [] of
        Inl e \<Rightarrow> Inl e
      | Inr changes \<Rightarrow> delete_loop (finditer delete_pattern response) changes)"


text \<open>The dictionary appended for one match of each pattern.\<close>

definition write_change :: "match_obj \<Rightarrow> change" where
  "write_change m =
     \<lparr>action = ''write'', path = lstrip_slash (m_groups m ! 0), content = strip (m_groups m ! 1)\<rparr>"

definition delete_change :: "match_obj \<Rightarrow> change" where
  "delete_change m = \<lparr>action = ''delete'', path = lstrip_slash (m_groups m ! 0), content = []\<rparr>"

section \<open>\<^verbatim>\<open>call_cursor_api\<close>\<close>

text \<open>
  The external service is the sequence of its answers: \<open>svc k\<close> is what request number \<open>k\<close>
  (from 0) of this call meets. \<open>HTTPError status\<close> is \<^verbatim>\<open>raise_for_status\<close> raising on
  that status, \<open>Timeout\<close> a \<^verbatim>\<open>requests.exceptions.Timeout\<close>, \<open>OtherFailure\<close> any exception
  the function does not catch (connection error, malformed JSON, missing key).
  The effects of the call are the trace of its requests and sleeps.
\<close>

datatype response = Success pystr | HTTPError nat | Timeout | OtherFailure

datatype event = Post | Sleep nat

datatype api_exn = RuntimeError nat | TimeoutExc | OtherExc

datatype outcome = Returned pystr | Raised api_exn

function call_loop :: "int \<Rightarrow> (nat \<Rightarrow> response) \<Rightarrow> nat \<Rightarrow> event list \<Rightarrow> outcome \<times> event list" where
  "call_loop retries svc attempt tr =
     (if int attempt < retries then
        (case svc attempt of
           Success t \<Rightarrow> (Returned t, tr @ [Post])
         | HTTPError status \<Rightarrow>
             if status = 429 then
               call_loop retries svc (attempt + 1) (tr @ [Post, Sleep (10 * (attempt + 1))])
             else if int attempt < retries - 1 then
               call_loop retries svc (attempt + 1) (tr @ [Post, Sleep 3])
             else (Raised (RuntimeError status), tr @ [Post])
         | Timeout \<Rightarrow>
             if int attempt < retries - 1 then
               call_loop retries svc (attempt + 1) (tr @ [Post, Sleep 5])
             else (Raised TimeoutExc, tr @ [Post])
         | OtherFailure \<Rightarrow> (Raised OtherExc, tr @ [Post]))
      else (Returned [], tr))"
  by pat_completeness auto
termination
  by (relation "measure (\<lambda>(retries, svc, attempt, tr). nat (retries - int attempt))") auto

declare call_loop.simps [simp del]

definition call_cursor_api :: "int \<Rightarrow> (nat \<Rightarrow> response) \<Rightarrow> outcome \<times> event list" where
  "call_cursor_api retries svc = call_loop retries svc 0 []"

text \<open>The default value of the parameter \<^verbatim>\<open>retries\<close>.\<close>

definition default_retries :: int where
  "default_retries = 3"

section \<open>The file system\<close>

text \<open>
  A POSIX file tree without symbolic links and permissions: a partial map from absolute
  paths (the list of component names below \<^verbatim>\<open>/\<close>) to nodes. The root is always a
  directory. A \<^verbatim>\<open>Path\<close> object is the list of its parts, which may contain \<^verbatim>\<open>..\<close>; the
  kernel resolves it by walking the tree, and every step leaves an existing directory.
\<close>

datatype node = File pystr | Dir

type_synonym fpath = "pystr list"

type_synonym filesystem = "fpath \<Rightarrow> node option"

datatype oserror =
  FileNotFoundError | NotADirectoryError | IsADirectoryError | FileExistsError | UnicodeEncodeError

definition dot :: pystr where
  "dot = str ''.''"

definition dotdot :: pystr where
  "dotdot = str ''..''"

definition node_at :: "filesystem \<Rightarrow> fpath \<Rightarrow> node option" where
  "node_at fs p = (if p = [] then Some Dir else fs p)"

definition step_to :: "fpath \<Rightarrow> pystr \<Rightarrow> fpath" where
  "step_to cur c = (if c = dotdot then butlast cur else cur @ [c])"

fun walk :: "filesystem \<Rightarrow> fpath \<Rightarrow> pystr list \<Rightarrow> oserror + fpath" where
  "walk fs cur [] = Inr cur"
| "walk fs cur (c # cs) =
     (case node_at fs cur of
        None \<Rightarrow> Inl FileNotFoundError
      | Some (File d) \<Rightarrow> Inl NotADirectoryError
      | Some Dir \<Rightarrow> walk fs (step_to cur c) cs)"

text \<open>\<^verbatim>\<open>s.split("/")\<close>, and the parts pathlib keeps of a relative path string.\<close>

fun split_slash :: "pystr \<Rightarrow> pystr list" where
  "split_slash [] = [[]]"
| "split_slash (c # s) =
     (if c = slash then [] # split_slash s
      else (case split_slash s of [] \<Rightarrow> [[c]] | g # gs \<Rightarrow> (c # g) # gs))"

definition path_parts :: "pystr \<Rightarrow> pystr list" where
  "path_parts p = filter (\<lambda>seg. seg \<noteq> [] \<and> seg \<noteq> dot) (split_slash p)"

text \<open>\<^verbatim>\<open>root / p\<close>: an absolute \<open>p\<close> replaces the root.\<close>

definition joinpath :: "fpath \<Rightarrow> pystr \<Rightarrow> fpath" where
  "joinpath root p = (if p \<noteq> [] \<and> hd p = slash then path_parts p else root @ path_parts p)"

text \<open>\<^verbatim>\<open>Path.exists\<close>, \<^verbatim>\<open>Path.is_dir\<close>, \<^verbatim>\<open>Path.read_text\<close>\<close>

definition exists_path :: "filesystem \<Rightarrow> fpath \<Rightarrow> bool" where
  "exists_path fs p = (case walk fs [] p of Inl e \<Rightarrow> False | Inr q \<Rightarrow> node_at fs q \<noteq> None)"

definition is_dir :: "filesystem \<Rightarrow> fpath \<Rightarrow> bool" where
  "is_dir fs p = (case walk fs [] p of Inl e \<Rightarrow> False | Inr q \<Rightarrow> node_at fs q = Some Dir)"

definition read_text :: "filesystem \<Rightarrow> fpath \<Rightarrow> oserror + pystr" where
  "read_text fs p =
     (case walk fs [] p of
        Inl e \<Rightarrow> Inl e
      | Inr q \<Rightarrow>
          (case node_at fs q of
             None \<Rightarrow> Inl FileNotFoundError
           | Some Dir \<Rightarrow> Inl IsADirectoryError
           | Some (File d) \<Rightarrow> Inr d))"

text \<open>\<^verbatim>\<open>os.mkdir\<close>, and \<^verbatim>\<open>Path.mkdir(parents=True, exist_ok=True)\<close> as pathlib writes it.\<close>

definition os_mkdir :: "filesystem \<Rightarrow> fpath \<Rightarrow> oserror + filesystem" where
  "os_mkdir fs p =
     (case walk fs [] p of
        Inl e \<Rightarrow> Inl e
      | Inr q \<Rightarrow> if node_at fs q \<noteq> None then Inl FileExistsError else Inr (fs(q \<mapsto> Dir)))"

function mkdir_parents :: "filesystem \<Rightarrow> fpath \<Rightarrow> filesystem \<times> oserror option" where
  "mkdir_parents fs p =
     (case os_mkdir fs p of
        Inr fs' \<Rightarrow> (fs', None)
      | Inl e \<Rightarrow>
          if e = FileNotFoundError then
            (if p = [] then (fs, Some e)
             else (case mkdir_parents fs (butlast p) of
                     (fs1, Some e1) \<Rightarrow> (fs1, Some e1)
                   | (fs1, None) \<Rightarrow>
                       (case os_mkdir fs1 p of
                          Inr fs2 \<Rightarrow> (fs2, None)
                        | Inl e2 \<Rightarrow>
                            if e2 \<noteq> FileNotFoundError \<and> is_dir fs1 p then (fs1, None)
                            else (fs1, Some e2))))
          else if is_dir fs p then (fs, None)
          else (fs, Some e))"
  by pat_completeness auto
termination
  by (relation "measure (\<lambda>(fs, p). length p)") auto

declare mkdir_parents.simps [simp del]

text \<open>
  \<^verbatim>\<open>Path.write_text(data, encoding="utf-8")\<close>: the file is opened for writing, which
  creates or truncates it, and then the text is encoded; a lone surrogate cannot be.
\<close>

definition surrogate :: "codepoint \<Rightarrow> bool" where
  "surrogate c \<longleftrightarrow> 55296 \<le> c \<and> c \<le> 57343"

definition write_text :: "filesystem \<Rightarrow> fpath \<Rightarrow> pystr \<Rightarrow> filesystem \<times> oserror option" where
  "write_text fs p d =
     (case walk fs [] p of
        Inl e \<Rightarrow> (fs, Some e)
      | Inr q \<Rightarrow>
          if node_at fs q = Some Dir then (fs, Some IsADirectoryError)
          else if list_ex surrogate d then (fs(q \<mapsto> File []), Some UnicodeEncodeError)
          else (fs(q \<mapsto> File d), None))"

text \<open>\<^verbatim>\<open>Path.unlink()\<close>\<close>

definition unlink :: "filesystem \<Rightarrow> fpath \<Rightarrow> filesystem \<times> oserror option" where
  "unlink fs p =
     (case walk fs [] p of
        Inl e \<Rightarrow> (fs, Some e)
      | Inr q \<Rightarrow>
          (case node_at fs q of
             None \<Rightarrow> (fs, Some FileNotFoundError)
           | Some Dir \<Rightarrow> (fs, Some IsADirectoryError)
           | Some (File d) \<Rightarrow> (fs(q := None), None)))"

text \<open>
  \<^verbatim>\<open>shutil.copy2(src, dst)\<close> for a source file of name \<open>name\<close> and bytes \<open>d\<close>: a
  destination that is a directory receives the file under its own name. File metadata
  is not part of the model.
\<close>

definition copy2 :: "pystr \<Rightarrow> pystr \<Rightarrow> filesystem \<Rightarrow> fpath \<Rightarrow> filesystem \<times> oserror option" where
  "copy2 name d fs p =
     (let p' = (if is_dir fs p then p @ [name] else p) in
      case walk fs [] p' of
        Inl e \<Rightarrow> (fs, Some e)
      | Inr q \<Rightarrow>
          if node_at fs q = Some Dir then (fs, Some IsADirectoryError)
          else (fs(q \<mapsto> File d), None))"

section \<open>\<^verbatim>\<open>step_apply_changes\<close>\<close>

text \<open>
  The source tree is read only through \<^verbatim>\<open>iter_source_files(source_root)\<close>; a source file
  is the parts of its path relative to the source root, and its bytes. The files that
  \<^verbatim>\<open>rglob\<close> yields lie below the root, so these parts are never empty; source and target
  trees are taken to be disjoint.
\<close>

record src_file =
  rel_parts :: "pystr list"
  file_data :: pystr

record stats =
  copied :: nat
  written :: nat
  deleted :: nat
  skipped :: nat

definition convex :: pystr where
  "convex = str ''convex''"

text \<open>Step 1: the copy loop, with its \<^verbatim>\<open>continue\<close> for the legacy backend directory.\<close>

definition copy_file :: "fpath \<Rightarrow> src_file \<Rightarrow> filesystem \<Rightarrow> filesystem \<times> oserror option" where
  "copy_file target_root f fs =
     (let dest = target_root @ rel_parts f in
      case mkdir_parents fs (butlast dest) of
        (fs1, Some e) \<Rightarrow> (fs1, Some e)
      | (fs1, None) \<Rightarrow> copy2 (last (rel_parts f)) (file_data f) fs1 dest)"

fun copy_loop :: "fpath \<Rightarrow> src_file list \<Rightarrow> filesystem \<Rightarrow> stats \<Rightarrow> filesystem \<times> (oserror + stats)" where
  "copy_loop target_root [] fs st = (fs, Inr st)"
| "copy_loop target_root (f # fs_rest) fs st =
     (if rel_parts f \<noteq> [] \<and> hd (rel_parts f) = convex then copy_loop target_root fs_rest fs st
      else (case copy_file target_root f fs of
              (fs1, Some e) \<Rightarrow> (fs1, Inl e)
            | (fs1, None) \<Rightarrow> copy_loop target_root fs_rest fs1 (st\<lparr>copied := copied st + 1\<rparr>)))"

text \<open>Step 2: one AI-generated change, and the loop over all of them.\<close>

definition apply_change :: "fpath \<Rightarrow> change \<Rightarrow> filesystem \<Rightarrow> stats \<Rightarrow> filesystem \<times> (oserror + stats)" where
  "apply_change target_root c fs st =
     (let dest = joinpath target_root (path c) in
      if action c = ''write'' then
        (case mkdir_parents fs (butlast dest) of
           (fs1, Some e) \<Rightarrow> (fs1, Inl e)
         | (fs1, None) \<Rightarrow>
             (case write_text fs1 dest (content c) of
                (fs2, Some e) \<Rightarrow> (fs2, Inl e)
              | (fs2, None) \<Rightarrow> (fs2, Inr (st\<lparr>written := written st + 1\<rparr>))))
      else if action c = ''delete'' then
        (if exists_path fs dest then
           (case unlink fs dest of
              (fs1, Some e) \<Rightarrow> (fs1, Inl e)
            | (fs1, None) \<Rightarrow> (fs1, Inr (st\<lparr>deleted := deleted st + 1\<rparr>)))
         else (fs, Inr (st\<lparr>skipped := skipped st + 1\<rparr>)))
      else (fs, Inr st))"

fun apply_loop :: "fpath \<Rightarrow> change list \<Rightarrow> filesystem \<Rightarrow> stats \<Rightarrow> filesystem \<times> (oserror + stats)" where
  "apply_loop target_root [] fs st = (fs, Inr st)"
| "apply_loop target_root (c # cs) fs st =
     (case apply_change target_root c fs st of
        (fs1, Inl e) \<Rightarrow> (fs1, Inl e)
      | (fs1, Inr st1) \<Rightarrow> apply_loop target_root cs fs1 st1)"

definition step_apply_changes ::
  "src_file list \<Rightarrow> fpath \<Rightarrow> change list \<Rightarrow> bool \<Rightarrow> filesystem \<Rightarrow> filesystem \<times> (oserror + stats)" where
  "step_apply_changes source_files target_root all_changes dry_run fs =
     (let st = \<lparr>copied = 0, written = 0, deleted = 0, skipped = 0\<rparr> in
      if dry_run then
        (fs, Inr (st\<lparr>written := length (filter (\<lambda>c. action c = ''write'') all_changes),
                     deleted := length (filter (\<lambda>c. action c = ''delete'') all_changes)\<rparr>))
      else
        (case copy_loop target_root source_files fs st of
           (fs1, Inl e) \<Rightarrow> (fs1, Inl e)
         | (fs1, Inr st1) \<Rightarrow> apply_loop target_root all_changes fs1 st1))"


section \<open>The markup grammar and the properties of paths\<close>

text \<open>
  The language of a pattern, stated without reference to the matcher: a text is in the
  language when it splits into one piece per item, each piece fitting its item.
\<close>

fun item_ok :: "item \<Rightarrow> pystr \<Rightarrow> bool" where
  "item_ok (a, Once, cap) g \<longleftrightarrow> (case g of [c] \<Rightarrow> atom_ok a c | _ \<Rightarrow> False)"
| "item_ok (a, Plus, cap) g \<longleftrightarrow> g \<noteq> [] \<and> list_all (atom_ok a) g"
| "item_ok (a, Star, cap) g \<longleftrightarrow> list_all (atom_ok a) g"
| "item_ok (a, LazyStar, cap) g \<longleftrightarrow> list_all (atom_ok a) g"

text \<open>
  The markers as the interface describes them: \<^verbatim>\<open><FILE path="REL/PATH">...content...</FILE>\<close>
  and \<^verbatim>\<open><DELETE path="REL/PATH" />\<close>, and a text that contains one.
\<close>

definition is_write_marker :: "pystr \<Rightarrow> bool" where
  "is_write_marker m \<longleftrightarrow>
     (\<exists>ws p c. m = str ''<FILE'' @ ws @ str ''path=\"'' @ p @ str ''\">'' @ c @ str ''</FILE>'' \<and>
        ws \<noteq> [] \<and> list_all isspace ws \<and> p \<noteq> [] \<and> dquote \<notin> set p)"

definition is_delete_marker :: "pystr \<Rightarrow> bool" where
  "is_delete_marker m \<longleftrightarrow>
     (\<exists>ws p ws'. m = str ''<DELETE'' @ ws @ str ''path=\"'' @ p @ str ''\"'' @ ws' @ str ''/>'' \<and>
        ws \<noteq> [] \<and> list_all isspace ws \<and> p \<noteq> [] \<and> dquote \<notin> set p \<and> list_all isspace ws')"

definition contains_marker :: "(pystr \<Rightarrow> bool) \<Rightarrow> pystr \<Rightarrow> bool" where
  "contains_marker mk r \<longleftrightarrow> (\<exists>pre m post. r = pre @ m @ post \<and> mk m)"

definition matches :: "pattern \<Rightarrow> pystr \<Rightarrow> bool" where
  "matches p m \<longleftrightarrow> (\<exists>gs. m = concat gs \<and> list_all2 item_ok p gs)"


text \<open>
  The text of a write-marker and of a delete-marker with given white space, path and
  content; and a match of a pattern at the start of a text that leaves a given rest and
  captures given groups.
\<close>

definition lt :: codepoint where
  "lt = 60"

definition write_marker :: "pystr \<Rightarrow> pystr \<Rightarrow> pystr \<Rightarrow> pystr" where
  "write_marker ws p c = str ''<FILE'' @ ws @ str ''path=\"'' @ p @ str ''\">'' @ c @ str ''</FILE>''"

definition delete_marker :: "pystr \<Rightarrow> pystr \<Rightarrow> pystr \<Rightarrow> pystr" where
  "delete_marker ws p ws' = str ''<DELETE'' @ ws @ str ''path=\"'' @ p @ str ''\"'' @ ws' @ str ''/>''"

definition yields :: "pattern \<Rightarrow> pystr \<Rightarrow> pystr \<Rightarrow> pystr list \<Rightarrow> bool" where
  "yields p t rest caps =
     (case match_here p t of None \<Rightarrow> False | Some (gs, r) \<Rightarrow> r = rest \<and> captures p gs = caps)"

text \<open>The number of groups of a pattern, and the slice \<^verbatim>\<open>s[i:j]\<close>.\<close>

definition ncap :: "pattern \<Rightarrow> nat" where
  "ncap p = length (filter (\<lambda>(a, q, cap). cap) p)"

definition slice :: "pystr \<Rightarrow> nat \<Rightarrow> nat \<Rightarrow> pystr" where
  "slice s i j = take (j - i) (drop i s)"

text \<open>A path with a leading separator is absolute.\<close>

definition leading_separator :: "pystr \<Rightarrow> bool" where
  "leading_separator p \<longleftrightarrow> p \<noteq> [] \<and> hd p = slash"

text \<open>
  The location a path names when every directory on its way exists: \<^verbatim>\<open>..\<close> steps to the
  parent. A relative path string leaves the root when that location is not below it.
\<close>

definition lexical :: "fpath \<Rightarrow> fpath" where
  "lexical p = foldl step_to [] p"

definition outside_root :: "fpath \<Rightarrow> pystr \<Rightarrow> bool" where
  "outside_root root p \<longleftrightarrow> take (length root) (lexical (joinpath root p)) \<noteq> root"

text \<open>
  A source file under the legacy backend directory, as the copy loop tests it, and a
  location of the file system that holds a regular file.
\<close>

definition under_convex :: "pystr list \<Rightarrow> bool" where
  "under_convex rel \<longleftrightarrow> rel \<noteq> [] \<and> hd rel = convex"

definition holds_file :: "filesystem \<Rightarrow> fpath \<Rightarrow> bool" where
  "holds_file fs q = (case fs q of Some (File d) \<Rightarrow> True | _ \<Rightarrow> False)"

text \<open>
  The conditions under which the copy loop is followed to its end: no prefix of the target
  root is a file, nothing lies below the target root, and the listing names distinct
  files by plain names, none of them a directory of another. \<open>ready\<close> is what the copy of
  one file needs of the target.
\<close>

definition root_clear :: "filesystem \<Rightarrow> fpath \<Rightarrow> bool" where
  "root_clear fs root \<longleftrightarrow> (\<forall>k\<le>length root. \<forall>d. node_at fs (take k root) \<noteq> Some (File d))"

definition ready :: "filesystem \<Rightarrow> fpath \<Rightarrow> pystr list \<Rightarrow> bool" where
  "ready fs root r \<longleftrightarrow>
     (\<forall>k<length r. \<forall>d. node_at fs (root @ take k r) \<noteq> Some (File d)) \<and>
     node_at fs (root @ r) \<noteq> Some Dir"

definition empty_below :: "filesystem \<Rightarrow> fpath \<Rightarrow> bool" where
  "empty_below fs root \<longleftrightarrow> (\<forall>q. q \<noteq> [] \<longrightarrow> fs (root @ q) = None)"

definition listing_ok :: "src_file list \<Rightarrow> bool" where
  "listing_ok files \<longleftrightarrow>
     (\<forall>f \<in> set files. rel_parts f \<noteq> [] \<and> dotdot \<notin> set (rel_parts f)) \<and>
     distinct (map rel_parts files) \<and>
     (\<forall>f \<in> set files. \<forall>g \<in> set files. \<forall>k<length (rel_parts g). rel_parts f \<noteq> take k (rel_parts g))"

section \<open>Evaluating the models\<close>

lemmas parse_eval =
  parse_file_blocks_def finditer_def finditer_from.simps file_pattern_def delete_pattern_def lits_def str_def
  dquote_def slash_def group_def lstrip_slash_def strip_def isspace_def

lemmas fs_eval =
  step_apply_changes_def apply_change_def copy_file_def copy2_def joinpath_def path_parts_def
  dot_def dotdot_def convex_def str_def slash_def mkdir_parents.simps os_mkdir_def node_at_def
  write_text_def surrogate_def is_dir_def step_to_def exists_path_def unlink_def read_text_def

section \<open>The matcher against the language\<close>

lemma push_Some: "push c r = Some (gs, rest) \<Longrightarrow>
  \<exists>g gs'. gs = (c # g) # gs' \<and> (r = Some (g # gs', rest) \<or> (g = [] \<and> gs' = [] \<and> r = Some ([], rest)))"
  by (cases "(c, r)" rule: push.cases) auto

lemma emit_Some: "emit g r = Some (gs, rest) \<Longrightarrow> \<exists>gs'. gs = g # gs' \<and> r = Some (gs', rest)"
  by (cases "(g, r)" rule: emit.cases) auto

lemma match_here_sound:
  "match_here p s = Some (gs, rest) \<Longrightarrow> s = concat gs @ rest \<and> list_all2 item_ok p gs"
proof (induction p s arbitrary: gs rest rule: match_here.induct)
  case (1 s)
  then show ?case by simp
next
  case (2 a cap p)
  then show ?case by simp
next
  case (3 a cap p c s)
  then show ?case by (auto split: if_splits dest!: emit_Some)
next
  case (4 a cap p)
  then show ?case by simp
next
  case (5 a cap p c s)
  then show ?case by (auto split: if_splits dest!: push_Some)
next
  case (6 a cap p)
  then show ?case by (auto dest!: emit_Some)
next
  case (7 a cap p c s)
  then show ?case by (auto split: if_splits option.splits dest!: emit_Some push_Some)
next
  case (8 a cap p)
  then show ?case by (auto dest!: emit_Some)
next
  case (9 a cap p c s)
  then show ?case by (auto split: if_splits option.splits dest!: emit_Some push_Some)
qed


lemma push_eq_None [simp]: "push c r = None \<longleftrightarrow> r = None"
  by (cases "(c, r)" rule: push.cases) auto

lemma emit_eq_None [simp]: "emit g r = None \<longleftrightarrow> r = None"
  by (cases "(g, r)" rule: emit.cases) auto

lemma push_Some_ex [simp]: "\<exists>a b. push c (Some x) = Some (a, b)"
  by (cases "(c, Some x)" rule: push.cases) auto

lemma star_complete:
  "list_all (atom_ok a) g \<Longrightarrow> match_here p t \<noteq> None \<Longrightarrow>
   match_here ((a, Star, cap) # p) (g @ t) \<noteq> None"
proof (induction g)
  case Nil
  then show ?case by (cases t) (auto split: option.splits)
next
  case (Cons c g)
  then show ?case by (auto split: option.splits)
qed

lemma lazy_complete:
  "list_all (atom_ok a) g \<Longrightarrow> match_here p t \<noteq> None \<Longrightarrow>
   match_here ((a, LazyStar, cap) # p) (g @ t) \<noteq> None"
proof (induction g)
  case Nil
  then show ?case by (cases t) (auto split: option.splits)
next
  case (Cons c g)
  then show ?case by (auto split: option.splits)
qed

lemma match_here_complete:
  "list_all2 item_ok p gs \<Longrightarrow> match_here p (concat gs @ rest) \<noteq> None"
proof (induction p arbitrary: gs)
  case Nil
  then show ?case by simp
next
  case (Cons it p)
  obtain a q cap where it: "it = (a, q, cap)" by (cases it) auto
  from Cons.prems obtain g gs' where gs: "gs = g # gs'" and ok: "item_ok it g"
    and rest: "list_all2 item_ok p gs'"
    by (auto simp: list_all2_Cons1)
  have tail: "match_here p (concat gs' @ rest) \<noteq> None"
    using Cons.IH [OF rest] .
  show ?case
  proof (cases q)
    case Once
    with ok it obtain c where "g = [c]" "atom_ok a c"
      by (auto split: list.splits)
    with tail show ?thesis by (auto simp: it gs Once)
  next
    case Plus
    with ok it obtain c g' where g: "g = c # g'" and c: "atom_ok a c" and g': "list_all (atom_ok a) g'"
      by (cases g) auto
    from star_complete [OF g' tail, of cap] c show ?thesis
      by (auto simp: it gs Plus g)
  next
    case Star
    with ok it have "list_all (atom_ok a) g" by simp
    from star_complete [OF this tail, of cap] show ?thesis
      by (simp add: it gs Star)
  next
    case LazyStar
    with ok it have "list_all (atom_ok a) g" by simp
    from lazy_complete [OF this tail, of cap] show ?thesis
      by (simp add: it gs LazyStar)
  qed
qed


lemma item_ok_Once [simp]: "item_ok (a, Once, cap) g \<longleftrightarrow> (\<exists>c. g = [c] \<and> atom_ok a c)"
  by (cases g rule: list.exhaust [case_product list.exhaust]) (auto split: list.splits)

declare item_ok.simps(1) [simp del]

lemma matches_Nil [simp]: "matches [] m \<longleftrightarrow> m = []"
  by (auto simp: matches_def)

lemma matches_Cons: "matches (it # p) m \<longleftrightarrow> (\<exists>g m'. m = g @ m' \<and> item_ok it g \<and> matches p m')"
proof
  assume "matches (it # p) m"
  then obtain g gs where "m = concat (g # gs)" "item_ok it g" "list_all2 item_ok p gs"
    by (auto simp: matches_def list_all2_Cons1)
  then show "\<exists>g m'. m = g @ m' \<and> item_ok it g \<and> matches p m'"
    unfolding matches_def by (intro exI [of _ g] exI [of _ "concat gs"]) auto
next
  assume "\<exists>g m'. m = g @ m' \<and> item_ok it g \<and> matches p m'"
  then obtain g gs where "m = g @ concat gs" "item_ok it g" "list_all2 item_ok p gs"
    by (auto simp: matches_def)
  then show "matches (it # p) m"
    unfolding matches_def by (intro exI [of _ "g # gs"]) auto
qed

lemma matches_Lit [simp]:
  "matches ((Lit a, Once, cap) # p) m \<longleftrightarrow> (\<exists>m'. m = a # m' \<and> matches p m')"
  by (auto simp: matches_Cons)

lemma matches_lits [simp]: "matches (lits L @ p) m \<longleftrightarrow> (\<exists>m'. m = str L @ m' \<and> matches p m')"
  by (induction L arbitrary: m) (auto simp: lits_def str_def)

lemma matches_lits_end [simp]: "matches (lits L) m \<longleftrightarrow> m = str L"
  using matches_lits [of L "[]" m] by simp

lemma matches_Plus [simp]:
  "matches ((a, Plus, cap) # p) m \<longleftrightarrow>
     (\<exists>g m'. m = g @ m' \<and> g \<noteq> [] \<and> list_all (atom_ok a) g \<and> matches p m')"
  by (simp add: matches_Cons)

lemma matches_Star [simp]:
  "matches ((a, Star, cap) # p) m \<longleftrightarrow> (\<exists>g m'. m = g @ m' \<and> list_all (atom_ok a) g \<and> matches p m')"
  by (simp add: matches_Cons)

lemma matches_LazyStar [simp]:
  "matches ((a, LazyStar, cap) # p) m \<longleftrightarrow> (\<exists>g m'. m = g @ m' \<and> list_all (atom_ok a) g \<and> matches p m')"
  by (simp add: matches_Cons)

lemma all_not_quote: "list_all (atom_ok (NotChar dquote)) g \<longleftrightarrow> dquote \<notin> set g"
  by (auto simp: list_all_iff)

lemma all_space: "list_all (atom_ok Space) g \<longleftrightarrow> list_all isspace g"
  by (auto simp: list_all_iff)

lemma all_any: "list_all (atom_ok AnyChar) g"
  by (auto simp: list_all_iff)

lemma matches_file_pattern: "matches file_pattern m \<longleftrightarrow> is_write_marker m"
proof
  assume "matches file_pattern m"
  then obtain ws p c where "m = str ''<FILE'' @ ws @ str ''path='' @ dquote # p @ dquote # str ''>'' @ c @ str ''</FILE>''"
    "ws \<noteq> []" "list_all isspace ws" "p \<noteq> []" "dquote \<notin> set p"
    unfolding file_pattern_def by (auto simp: all_not_quote all_space)
  then show "is_write_marker m"
    unfolding is_write_marker_def
    by (intro exI [of _ ws] exI [of _ p] exI [of _ c]) (simp add: str_def dquote_def)
next
  assume "is_write_marker m"
  then obtain ws p c where m: "m = str ''<FILE'' @ ws @ str ''path=\"'' @ p @ str ''\">'' @ c @ str ''</FILE>''"
    and *: "ws \<noteq> []" "list_all isspace ws" "p \<noteq> []" "dquote \<notin> set p"
    unfolding is_write_marker_def by blast
  have m': "m = str ''<FILE'' @ ws @ str ''path='' @ dquote # p @ dquote # str ''>'' @ c @ str ''</FILE>''"
    by (simp add: m str_def dquote_def)
  show "matches file_pattern m"
    unfolding file_pattern_def m' using *
    apply (simp add: all_not_quote all_space all_any)
    apply (rule exI [of _ ws], simp)
    apply (rule exI [of _ p], simp)
    done
qed


lemma matches_delete_pattern: "matches delete_pattern m \<longleftrightarrow> is_delete_marker m"
proof
  assume "matches delete_pattern m"
  then obtain ws p ws' where "m = str ''<DELETE'' @ ws @ str ''path='' @ dquote # p @ dquote # ws' @ str ''/>''"
    "ws \<noteq> []" "list_all isspace ws" "p \<noteq> []" "dquote \<notin> set p" "list_all isspace ws'"
    unfolding delete_pattern_def by (auto simp: all_not_quote all_space)
  then show "is_delete_marker m"
    unfolding is_delete_marker_def
    by (intro exI [of _ ws] exI [of _ p] exI [of _ ws']) (simp add: str_def dquote_def)
next
  assume "is_delete_marker m"
  then obtain ws p ws' where m: "m = str ''<DELETE'' @ ws @ str ''path=\"'' @ p @ str ''\"'' @ ws' @ str ''/>''"
    and *: "ws \<noteq> []" "list_all isspace ws" "p \<noteq> []" "dquote \<notin> set p" "list_all isspace ws'"
    unfolding is_delete_marker_def by blast
  have m': "m = str ''<DELETE'' @ ws @ str ''path='' @ dquote # p @ dquote # ws' @ str ''/>''"
    by (simp add: m str_def dquote_def)
  show "matches delete_pattern m"
    unfolding delete_pattern_def m' using *
    apply (simp add: all_not_quote all_space all_any)
    apply (rule exI [of _ ws], simp)
    apply (rule exI [of _ p], simp)
    done
qed

text \<open>The matcher fails exactly when no prefix of the text is in the language.\<close>

lemma match_here_None_iff:
  "match_here p s = None \<longleftrightarrow> \<not> (\<exists>m rest. s = m @ rest \<and> matches p m)"
proof
  assume none: "match_here p s = None"
  show "\<not> (\<exists>m rest. s = m @ rest \<and> matches p m)"
  proof
    assume "\<exists>m rest. s = m @ rest \<and> matches p m"
    then obtain gs rest where "s = concat gs @ rest" "list_all2 item_ok p gs"
      by (auto simp: matches_def)
    with match_here_complete [of p gs rest] none show False by simp
  qed
next
  assume no: "\<not> (\<exists>m rest. s = m @ rest \<and> matches p m)"
  show "match_here p s = None"
  proof (cases "match_here p s")
    case None
    then show ?thesis .
  next
    case (Some r)
    obtain gs rest where "r = (gs, rest)" by (cases r)
    with Some match_here_sound [of p s gs rest] have "s = concat gs @ rest" "matches p (concat gs)"
      by (auto simp: matches_def)
    with no show ?thesis by blast
  qed
qed

lemma finditer_from_Nil_iff:
  "finditer_from p off s = [] \<longleftrightarrow> (\<forall>k. match_here p (drop k s) = None)"
proof (induction p off s rule: finditer_from.induct)
  case (1 p off s)
  show ?case
  proof (cases "match_here p s")
    case (Some r)
    then have "finditer_from p off s \<noteq> []"
      by (subst finditer_from.simps) (simp split: prod.splits)
    moreover from Some have "\<not> (\<forall>k. match_here p (drop k s) = None)"
      by (auto intro: exI [of _ 0])
    ultimately show ?thesis by simp
  next
    case None
    show ?thesis
    proof (cases s)
      case Nil
      with None show ?thesis by (subst finditer_from.simps) simp
    next
      case (Cons c s')
      have "(\<forall>k. match_here p (drop k s) = None) \<longleftrightarrow> (\<forall>k. match_here p (drop k s') = None)"
      proof
        assume a: "\<forall>k. match_here p (drop k s) = None"
        show "\<forall>k. match_here p (drop k s') = None"
        proof
          fix k from a have "match_here p (drop (Suc k) s) = None" by blast
          then show "match_here p (drop k s') = None" by (simp add: Cons)
        qed
      next
        assume a: "\<forall>k. match_here p (drop k s') = None"
        show "\<forall>k. match_here p (drop k s) = None"
        proof
          fix k show "match_here p (drop k s) = None"
            using a None by (cases k) (auto simp: Cons)
        qed
      qed
      moreover have "finditer_from p off s = finditer_from p (off + 1) s'"
        using None Cons by (subst finditer_from.simps) simp
      ultimately show ?thesis
        using "1.IH"(1) [OF None Cons] by simp
    qed
  qed
qed

lemma finditer_Nil_iff: "finditer p r = [] \<longleftrightarrow> \<not> contains_marker (matches p) r"
proof -
  have "(\<exists>k. match_here p (drop k r) \<noteq> None) \<longleftrightarrow> contains_marker (matches p) r"
  proof
    assume "\<exists>k. match_here p (drop k r) \<noteq> None"
    then obtain k m rest where "drop k r = m @ rest" "matches p m"
      by (auto simp: match_here_None_iff)
    then have "r = take k r @ m @ rest \<and> matches p m"
      by (metis append_take_drop_id)
    then show "contains_marker (matches p) r"
      unfolding contains_marker_def by blast
  next
    assume "contains_marker (matches p) r"
    then obtain pre m post where r: "r = pre @ m @ post" and m: "matches p m"
      unfolding contains_marker_def by blast
    then have "drop (length pre) r = m @ post" by simp
    with m have "match_here p (drop (length pre) r) \<noteq> None"
      by (auto simp: match_here_None_iff)
    then show "\<exists>k. match_here p (drop k r) \<noteq> None" ..
  qed
  then have "(\<not> (\<exists>k. match_here p (drop k r) \<noteq> None)) = (\<not> contains_marker (matches p) r)"
    by (rule arg_cong [where f = Not])
  then show ?thesis
    by (simp only: not_ex not_not finditer_def finditer_from_Nil_iff)
qed

lemma captures_length: "list_all2 item_ok p gs \<Longrightarrow> length (captures p gs) = ncap p"
  by (induction p gs rule: list_all2_induct) (auto simp: ncap_def)

lemma ncap_file_pattern: "ncap file_pattern = 2"
  by (simp add: ncap_def file_pattern_def lits_def)

lemma ncap_delete_pattern: "ncap delete_pattern = 1"
  by (simp add: ncap_def delete_pattern_def lits_def)

lemma drop_shift: "Suc off \<le> i \<Longrightarrow> drop (i - off) (c # s') = drop (i - Suc off) s'"
  by (simp add: drop_Cons')

text \<open>What \<open>finditer_from\<close> returns: genuine, ordered, non-overlapping matches.\<close>

lemma finditer_from_matches:
  "m \<in> set (finditer_from p off s) \<Longrightarrow>
     off \<le> m_start m \<and> m_start m \<le> m_end m \<and> m_end m \<le> off + length s \<and>
     length (m_groups m) = ncap p \<and>
     matches p (slice s (m_start m - off) (m_end m - off))"
proof (induction p off s arbitrary: m rule: finditer_from.induct)
  case (1 p off s)
  show ?case
  proof (cases "match_here p s")
    case None
    show ?thesis
    proof (cases s)
      case Nil
      with None 1(4) show ?thesis by (subst (asm) finditer_from.simps) simp
    next
      case (Cons c s')
      with None 1(4) have "m \<in> set (finditer_from p (off + 1) s')"
        by (subst (asm) finditer_from.simps) simp
      from "1.IH"(1) [OF None Cons this] show ?thesis
        by (auto simp: Cons slice_def drop_shift)
    qed
  next
    case (Some r)
    obtain gs rest where r: "r = (gs, rest)" by (cases r)
    from Some r match_here_sound [of p s gs rest]
    have s: "s = concat gs @ rest" and ok: "list_all2 item_ok p gs" by auto
    let ?n = "length s - length rest"
    have n: "?n = length (concat gs)" by (subst s) simp
    let ?m0 = "\<lparr>m_start = off, m_end = off + ?n, m_groups = captures p gs\<rparr>"
    have first: "off \<le> m_start ?m0 \<and> m_start ?m0 \<le> m_end ?m0 \<and> m_end ?m0 \<le> off + length s \<and>
       length (m_groups ?m0) = ncap p \<and> matches p (slice s (m_start ?m0 - off) (m_end ?m0 - off))"
    proof -
      have "take (length (concat gs)) (concat gs @ rest) = concat gs" by simp
      then have "slice s 0 ?n = concat gs" unfolding slice_def n using s by simp
      then show ?thesis using ok by (auto simp: captures_length matches_def)
    qed
    from 1(4) Some r have "m = ?m0 \<or>
        (length rest < length s \<and> m \<in> set (finditer_from p (off + ?n) rest)) \<or>
        (\<not> length rest < length s \<and> (\<exists>c s'. s = c # s' \<and> m \<in> set (finditer_from p (off + 1) s')))"
      by (subst (asm) finditer_from.simps) (auto split: if_splits list.splits)
    then show ?thesis
    proof (elim disjE conjE exE)
      assume "m = ?m0"
      with first show ?thesis by simp
    next
      assume lt: "length rest < length s" and mem: "m \<in> set (finditer_from p (off + ?n) rest)"
      from "1.IH"(2) [OF Some r [symmetric] lt mem]
      have ih: "off + ?n \<le> m_start m" "m_start m \<le> m_end m" "m_end m \<le> off + ?n + length rest"
        "length (m_groups m) = ncap p"
        "matches p (slice rest (m_start m - (off + ?n)) (m_end m - (off + ?n)))" by auto
      have "slice s (m_start m - off) (m_end m - off) =
            slice rest (m_start m - (off + ?n)) (m_end m - (off + ?n))"
      proof -
        have "off + length (concat gs) \<le> m_start m" using ih(1) n by simp
        then have "drop (m_start m - off) (concat gs @ rest) =
              drop (m_start m - (off + length (concat gs))) rest"
          by simp
        then have "drop (m_start m - off) s = drop (m_start m - (off + ?n)) rest"
          using s n by simp
        moreover have "m_end m - off - (m_start m - off) = m_end m - (off + ?n) - (m_start m - (off + ?n))"
          using ih(1,2) by simp
        ultimately show ?thesis by (simp add: slice_def)
      qed
      with ih lt show ?thesis by auto
    next
      fix c s'
      assume nlt: "\<not> length rest < length s" and sc: "s = c # s'"
        and mem: "m \<in> set (finditer_from p (off + 1) s')"
      from "1.IH"(3) [OF Some r [symmetric] nlt sc mem] show ?thesis
        by (auto simp: sc slice_def drop_shift)
    qed
  qed
qed


lemma finditer_from_ordered:
  "sorted_wrt (\<lambda>a b. m_end a \<le> m_start b) (finditer_from p off s)"
proof (induction p off s rule: finditer_from.induct)
  case (1 p off s)
  show ?case
  proof (cases "match_here p s")
    case None
    show ?thesis
    proof (cases s)
      case Nil
      with None show ?thesis by (subst finditer_from.simps) simp
    next
      case (Cons c s')
      with None "1.IH"(1) [OF None Cons] show ?thesis
        by (subst finditer_from.simps) simp
    qed
  next
    case (Some r)
    obtain gs rest where r: "r = (gs, rest)" by (cases r)
    let ?n = "length s - length rest"
    show ?thesis
    proof (cases "length rest < length s")
      case True
      have "\<forall>m \<in> set (finditer_from p (off + ?n) rest). off + ?n \<le> m_start m"
        using finditer_from_matches by blast
      with Some r True "1.IH"(2) [OF Some r [symmetric] True] show ?thesis
        by (subst finditer_from.simps) simp
    next
      case False
      show ?thesis
      proof (cases s)
        case Nil
        with Some r False show ?thesis by (subst finditer_from.simps) simp
      next
        case (Cons c s')
        have "\<forall>m \<in> set (finditer_from p (off + 1) s'). off + 1 \<le> m_start m"
          using finditer_from_matches by blast
        with Some r False Cons "1.IH"(3) [OF Some r [symmetric] False Cons] show ?thesis
          by (subst finditer_from.simps) auto
      qed
    qed
  qed
qed

lemma finditer_ordered: "sorted_wrt (\<lambda>a b. m_end a \<le> m_start b) (finditer p r)"
  by (simp add: finditer_def finditer_from_ordered)

lemma finditer_matches:
  assumes "m \<in> set (finditer p r)"
  shows "m_start m \<le> m_end m" and "m_end m \<le> length r" and "length (m_groups m) = ncap p"
    and "matches p (slice r (m_start m) (m_end m))"
  using finditer_from_matches [of m p 0 r] assms by (simp_all add: finditer_def)

lemma file_loop_map:
  "\<forall>m \<in> set ms. length (m_groups m) = 2 \<Longrightarrow> file_loop ms acc = Inr (acc @ map write_change ms)"
  by (induction ms arbitrary: acc) (auto simp: group_def write_change_def)

lemma delete_loop_map:
  "\<forall>m \<in> set ms. length (m_groups m) = 1 \<Longrightarrow> delete_loop ms acc = Inr (acc @ map delete_change ms)"
  by (induction ms arbitrary: acc) (auto simp: group_def delete_change_def)

lemma parse_file_blocks_eq:
  "parse_file_blocks r =
     Inr (map write_change (finditer file_pattern r) @ map delete_change (finditer delete_pattern r))"
proof -
  have "file_loop (finditer file_pattern r) [] = Inr ([] @ map write_change (finditer file_pattern r))"
    by (rule file_loop_map) (simp add: finditer_matches(3) ncap_file_pattern)
  moreover have "delete_loop (finditer delete_pattern r) acc =
      Inr (acc @ map delete_change (finditer delete_pattern r))" for acc
    by (rule delete_loop_map) (simp add: finditer_matches(3) ncap_delete_pattern)
  ultimately show ?thesis
    by (simp add: parse_file_blocks_def)
qed

lemma parse_file_blocks_Nil_iff:
  "parse_file_blocks r = Inr [] \<longleftrightarrow>
     \<not> contains_marker is_write_marker r \<and> \<not> contains_marker is_delete_marker r"
proof -
  have "matches file_pattern = is_write_marker" "matches delete_pattern = is_delete_marker"
    by (auto simp: fun_eq_iff matches_file_pattern matches_delete_pattern)
  then show ?thesis
    using finditer_Nil_iff [of file_pattern r] finditer_Nil_iff [of delete_pattern r]
    by (simp add: parse_file_blocks_eq)
qed

lemma lstrip_slash_no_leading: "\<not> leading_separator (lstrip_slash s)"
  unfolding leading_separator_def lstrip_slash_def
  using hd_dropWhile [of "\<lambda>c. c = slash" s] by auto

section \<open>One marker between plain text\<close>

text \<open>Exact results of the matcher on a text built piece by piece.\<close>

lemma match_here_lits:
  "match_here p t = Some (gs, rest) \<Longrightarrow>
   match_here (lits L @ p) (str L @ t) = Some (map (\<lambda>c. [of_char c]) L @ gs, rest)"
  by (induction L) (auto simp: lits_def str_def)

lemma match_here_star_exact:
  "list_all (atom_ok a) g \<Longrightarrow> \<not> atom_ok a c \<Longrightarrow> match_here p (c # t) = Some (gs, rest) \<Longrightarrow>
   match_here ((a, Star, cap) # p) (g @ c # t) = Some (g # gs, rest)"
  by (induction g) auto

lemma match_here_plus_exact:
  "g \<noteq> [] \<Longrightarrow> list_all (atom_ok a) g \<Longrightarrow> \<not> atom_ok a c \<Longrightarrow>
   match_here p (c # t) = Some (gs, rest) \<Longrightarrow>
   match_here ((a, Plus, cap) # p) (g @ c # t) = Some (g # gs, rest)"
  by (cases g) (auto simp: match_here_star_exact)

lemma match_here_lazy_exact:
  "l \<notin> set g \<Longrightarrow> match_here ((Lit l, Once, cap') # p) t = Some (gs, rest) \<Longrightarrow>
   match_here ((AnyChar, LazyStar, cap) # (Lit l, Once, cap') # p) (g @ t) = Some (g # gs, rest)"
proof (induction g)
  case Nil
  then show ?case by (cases t) auto
next
  case (Cons x g)
  then show ?case by auto
qed

lemma captures_lits: "captures (lits L @ p) (map (\<lambda>c. [of_char c]) L @ gs) = captures p gs"
  by (induction L) (auto simp: lits_def)


lemma yields_iff:
  "yields p t rest caps \<longleftrightarrow> (\<exists>gs. match_here p t = Some (gs, rest) \<and> captures p gs = caps)"
  by (auto simp: yields_def split: option.splits)

lemma yields_Nil: "yields [] t t []"
  by (simp add: yields_def)

lemma yields_once: "yields p t rest caps \<Longrightarrow> yields ((Lit a, Once, False) # p) (a # t) rest caps"
  by (auto simp: yields_iff)

lemma yields_lits: "yields p t rest caps \<Longrightarrow> yields (lits L @ p) (str L @ t) rest caps"
  by (induction L) (auto simp: lits_def str_def yields_once)

lemma yields_plus:
  assumes "g \<noteq> []" and "list_all (atom_ok a) g" and "\<not> atom_ok a c"
    and "yields p (c # t) rest caps"
  shows "yields ((a, Plus, cap) # p) (g @ c # t) rest (if cap then g # caps else caps)"
proof -
  from assms(4) obtain gs where "match_here p (c # t) = Some (gs, rest)" "captures p gs = caps"
    by (auto simp: yields_iff)
  with match_here_plus_exact [OF assms(1,2,3), of p t gs rest cap] show ?thesis
    by (auto simp: yields_iff)
qed

lemma yields_star:
  assumes "list_all (atom_ok a) g" and "\<not> atom_ok a c" and "yields p (c # t) rest caps"
  shows "yields ((a, Star, cap) # p) (g @ c # t) rest (if cap then g # caps else caps)"
proof -
  from assms(3) obtain gs where "match_here p (c # t) = Some (gs, rest)" "captures p gs = caps"
    by (auto simp: yields_iff)
  with match_here_star_exact [OF assms(1,2), of p t gs rest cap] show ?thesis
    by (auto simp: yields_iff)
qed

lemma yields_lazy:
  assumes "l \<notin> set g" and "yields ((Lit l, Once, False) # p) t rest caps"
  shows "yields ((AnyChar, LazyStar, cap) # (Lit l, Once, False) # p) (g @ t) rest
           (if cap then g # caps else caps)"
proof -
  from assms(2) obtain gs where "match_here ((Lit l, Once, False) # p) t = Some (gs, rest)"
    "captures ((Lit l, Once, False) # p) gs = caps"
    by (auto simp: yields_iff)
  with match_here_lazy_exact [OF assms(1), of False p t gs rest cap] show ?thesis
    by (auto simp: yields_iff)
qed

lemma yields_file_pattern:
  assumes "ws \<noteq> []" and "list_all isspace ws" and "p \<noteq> []" and "dquote \<notin> set p"
    and "lt \<notin> set c"
  shows "yields file_pattern (write_marker ws p c @ post) post [p, c]"
proof -
  have e: "yields (lits ''</FILE>'') (str ''</FILE>'' @ post) post []"
    using yields_lits [OF yields_Nil, of "''</FILE>''" post] by simp
  then have "yields ((Lit lt, Once, False) # lits ''/FILE>'') (str ''</FILE>'' @ post) post []"
    by (simp add: lits_def lt_def)
  from yields_lazy [OF assms(5) this, of True]
  have "yields ((AnyChar, LazyStar, True) # lits ''</FILE>'') (c @ str ''</FILE>'' @ post) post [c]"
    by (simp add: lits_def lt_def)
  from yields_once [OF yields_lits [OF this, of "''>''"], of dquote]
  have d: "yields ((Lit dquote, Once, False) # lits ''>'' @ (AnyChar, LazyStar, True) # lits ''</FILE>'')
      (dquote # str ''>'' @ c @ str ''</FILE>'' @ post) post [c]" .
  have "list_all (atom_ok (NotChar dquote)) p" using assms(4) by (simp add: all_not_quote)
  from yields_plus [OF assms(3) this _ d, of True]
  have "yields ((NotChar dquote, Plus, True) # (Lit dquote, Once, False) # lits ''>'' @
        (AnyChar, LazyStar, True) # lits ''</FILE>'')
      (p @ dquote # str ''>'' @ c @ str ''</FILE>'' @ post) post [p, c]"
    by simp
  from yields_lits [OF yields_once [OF this, of dquote], of "''ath=''"]
  have "yields ((Lit 112, Once, False) # lits ''ath='' @ (Lit dquote, Once, False) #
        (NotChar dquote, Plus, True) # (Lit dquote, Once, False) # lits ''>'' @
        (AnyChar, LazyStar, True) # lits ''</FILE>'')
      (112 # str ''ath='' @ dquote # p @ dquote # str ''>'' @ c @ str ''</FILE>'' @ post) post [p, c]"
    by (rule yields_once)
  moreover have "list_all (atom_ok Space) ws" using assms(2) by (simp add: all_space)
  moreover have "\<not> atom_ok Space 112" by (simp add: isspace_def)
  ultimately have "yields ((Space, Plus, False) # (Lit 112, Once, False) # lits ''ath='' @
        (Lit dquote, Once, False) # (NotChar dquote, Plus, True) # (Lit dquote, Once, False) #
        lits ''>'' @ (AnyChar, LazyStar, True) # lits ''</FILE>'')
      (ws @ 112 # str ''ath='' @ dquote # p @ dquote # str ''>'' @ c @ str ''</FILE>'' @ post)
      post [p, c]"
    using yields_plus [OF assms(1), of Space 112 _ _ post "[p, c]" False] by simp
  from yields_lits [OF this, of "''<FILE''"] show ?thesis
    by (simp add: file_pattern_def write_marker_def lits_def str_def dquote_def)
qed


lemma yields_delete_pattern:
  assumes "ws \<noteq> []" and "list_all isspace ws" and "p \<noteq> []" and "dquote \<notin> set p"
    and "list_all isspace ws'"
  shows "yields delete_pattern (delete_marker ws p ws' @ post) post [p]"
proof -
  have "yields (lits ''/>'') (str ''/>'' @ post) post []"
    using yields_lits [OF yields_Nil, of "''/>''" post] by simp
  then have e: "yields ((Lit 47, Once, False) # lits ''>'') (47 # str ''>'' @ post) post []"
    by (simp add: lits_def str_def)
  have "list_all (atom_ok Space) ws'" using assms(5) by (simp add: all_space)
  moreover have "\<not> atom_ok Space 47" by (simp add: isspace_def)
  ultimately have "yields ((Space, Star, False) # (Lit 47, Once, False) # lits ''>'')
      (ws' @ 47 # str ''>'' @ post) post []"
    using yields_star [of Space ws' 47 _ _ post "[]" False] e by simp
  then have d: "yields ((Lit dquote, Once, False) # (Space, Star, False) # (Lit 47, Once, False) # lits ''>'')
      (dquote # ws' @ 47 # str ''>'' @ post) post []"
    by (rule yields_once)
  have "list_all (atom_ok (NotChar dquote)) p" using assms(4) by (simp add: all_not_quote)
  from yields_plus [OF assms(3) this _ d, of True]
  have "yields ((NotChar dquote, Plus, True) # (Lit dquote, Once, False) # (Space, Star, False) #
        (Lit 47, Once, False) # lits ''>'')
      (p @ dquote # ws' @ 47 # str ''>'' @ post) post [p]"
    by simp
  from yields_lits [OF yields_once [OF this, of dquote], of "''ath=''"]
  have "yields ((Lit 112, Once, False) # lits ''ath='' @ (Lit dquote, Once, False) #
        (NotChar dquote, Plus, True) # (Lit dquote, Once, False) # (Space, Star, False) #
        (Lit 47, Once, False) # lits ''>'')
      (112 # str ''ath='' @ dquote # p @ dquote # ws' @ 47 # str ''>'' @ post) post [p]"
    by (rule yields_once)
  moreover have "list_all (atom_ok Space) ws" using assms(2) by (simp add: all_space)
  moreover have "\<not> atom_ok Space 112" by (simp add: isspace_def)
  ultimately have "yields ((Space, Plus, False) # (Lit 112, Once, False) # lits ''ath='' @
        (Lit dquote, Once, False) # (NotChar dquote, Plus, True) # (Lit dquote, Once, False) #
        (Space, Star, False) # (Lit 47, Once, False) # lits ''>'')
      (ws @ 112 # str ''ath='' @ dquote # p @ dquote # ws' @ 47 # str ''>'' @ post) post [p]"
    using yields_plus [OF assms(1), of Space 112 _ _ post "[p]" False] by simp
  from yields_lits [OF this, of "''<DELETE''"] show ?thesis
    by (simp add: delete_pattern_def delete_marker_def lits_def str_def dquote_def)
qed

text \<open>The scan passes over text that cannot start a match.\<close>

lemma finditer_from_end: "finditer_from ((Lit a, Once, cap) # p) off [] = []"
  by (subst finditer_from.simps) simp

lemma finditer_from_skip:
  "a \<notin> set pre \<Longrightarrow>
   finditer_from ((Lit a, Once, cap) # p) off (pre @ s) =
   finditer_from ((Lit a, Once, cap) # p) (off + length pre) s"
proof (induction pre arbitrary: off)
  case Nil
  then show ?case by simp
next
  case (Cons x pre)
  then have "finditer_from ((Lit a, Once, cap) # p) off ((x # pre) @ s) =
      finditer_from ((Lit a, Once, cap) # p) (off + 1) (pre @ s)"
    by (subst finditer_from.simps) simp
  with Cons show ?case by simp
qed

lemma finditer_from_skip_all:
  "a \<notin> set pre \<Longrightarrow> finditer_from ((Lit a, Once, cap) # p) off pre = []"
  using finditer_from_skip [of a pre cap p off "[]"] by (simp add: finditer_from_end)

lemma finditer_from_miss:
  "match_here p (x # s) = None \<Longrightarrow> finditer_from p off (x # s) = finditer_from p (off + 1) s"
  by (subst finditer_from.simps) simp

lemma finditer_from_yields:
  assumes "yields p (m @ rest) rest caps" and "m \<noteq> []"
  shows "finditer_from p off (m @ rest) =
     \<lparr>m_start = off, m_end = off + length m, m_groups = caps\<rparr> #
     finditer_from p (off + length m) rest"
proof -
  from assms(1) obtain gs where "match_here p (m @ rest) = Some (gs, rest)" "captures p gs = caps"
    by (auto simp: yields_iff)
  with assms(2) show ?thesis
    by (subst finditer_from.simps) simp
qed


lemma file_pattern_starts: "file_pattern = (Lit lt, Once, False) # tl file_pattern"
  by (simp add: file_pattern_def lits_def lt_def)

lemma delete_pattern_starts: "delete_pattern = (Lit lt, Once, False) # tl delete_pattern"
  by (simp add: delete_pattern_def lits_def lt_def)

lemma file_pattern_second: "x \<noteq> 70 \<Longrightarrow> match_here file_pattern (lt # x # s) = None"
  by (simp add: file_pattern_def lits_def lt_def)

lemma delete_pattern_second: "x \<noteq> 68 \<Longrightarrow> match_here delete_pattern (lt # x # s) = None"
  by (simp add: delete_pattern_def lits_def lt_def)

lemma isspace_not_lt: "list_all isspace ws \<Longrightarrow> lt \<notin> set ws"
  by (auto simp: list_all_iff isspace_def lt_def)

lemma finditer_one:
  assumes "p = (Lit lt, Once, False) # p'" and "lt \<notin> set pre" and "lt \<notin> set post"
    and "yields p (m @ post) post caps" and "m \<noteq> []"
  shows "finditer p (pre @ m @ post) =
     [\<lparr>m_start = length pre, m_end = length pre + length m, m_groups = caps\<rparr>]"
proof -
  have "finditer p (pre @ m @ post) = finditer_from p (length pre) (m @ post)"
    unfolding finditer_def assms(1) using finditer_from_skip [OF assms(2)] by simp
  also have "\<dots> = \<lparr>m_start = length pre, m_end = length pre + length m, m_groups = caps\<rparr> #
      finditer_from p (length pre + length m) post"
    using assms(4,5) by (rule finditer_from_yields)
  also have "finditer_from p (length pre + length m) post = []"
    unfolding assms(1) using assms(3) by (rule finditer_from_skip_all)
  finally show ?thesis .
qed

lemma finditer_none:
  assumes "p = (Lit lt, Once, False) # p'" and "lt \<notin> set pre" and "lt \<notin> set post"
    and "lt \<notin> set body" and "lt \<notin> set closing"
    and "\<And>s. match_here p (lt # body @ s) = None" and "\<And>s. match_here p (lt # closing @ s) = None"
  shows "finditer p (pre @ lt # body @ post) = []"
    and "finditer p (pre @ lt # body @ lt # closing @ post) = []"
proof -
  have a: "finditer p (pre @ t) = finditer_from p (length pre) t" for t
    unfolding finditer_def assms(1) using finditer_from_skip [OF assms(2)] by simp
  have b: "finditer_from p k (lt # body @ t) = finditer_from p (k + 1 + length body) t" for k t
  proof -
    have "finditer_from p k (lt # body @ t) = finditer_from p (k + 1) (body @ t)"
      using assms(6) by (rule finditer_from_miss)
    also have "\<dots> = finditer_from p (k + 1 + length body) t"
      unfolding assms(1) using assms(4) by (rule finditer_from_skip)
    finally show ?thesis .
  qed
  have c: "finditer_from p k (lt # closing @ t) = finditer_from p (k + 1 + length closing) t" for k t
  proof -
    have "finditer_from p k (lt # closing @ t) = finditer_from p (k + 1) (closing @ t)"
      using assms(7) by (rule finditer_from_miss)
    also have "\<dots> = finditer_from p (k + 1 + length closing) t"
      unfolding assms(1) using assms(5) by (rule finditer_from_skip)
    finally show ?thesis .
  qed
  have d: "finditer_from p k post = []" for k
    unfolding assms(1) using assms(3) by (rule finditer_from_skip_all)
  show "finditer p (pre @ lt # body @ post) = []"
    by (simp only: a b d)
  show "finditer p (pre @ lt # body @ lt # closing @ post) = []"
    by (simp only: a b c d)
qed


text \<open>
  Both patterns begin with a literal, so a match is never empty and the scan always
  resumes at the end of the match.
\<close>

lemma match_here_consumes:
  assumes "match_here ((Lit a, Once, cap) # p) s = Some (gs, rest)"
  shows "length rest < length s"
proof -
  from match_here_sound [OF assms] obtain g gs' where "s = concat (g # gs') @ rest"
    and "item_ok (Lit a, Once, cap) g"
    by (auto simp: list_all2_Cons1)
  then show ?thesis by auto
qed

lemma file_pattern_consumes: "match_here file_pattern s = Some (gs, rest) \<Longrightarrow> length rest < length s"
  using match_here_consumes [of lt False "tl file_pattern" s gs rest] file_pattern_starts by simp

lemma delete_pattern_consumes: "match_here delete_pattern s = Some (gs, rest) \<Longrightarrow> length rest < length s"
  using match_here_consumes [of lt False "tl delete_pattern" s gs rest] delete_pattern_starts by simp

section \<open>The retry loop\<close>

text \<open>
  When every attempt fails and the last one is not rate-limited, the call raises: the
  last HTTP error wrapped in a RuntimeError, or the last timeout itself.
\<close>

lemma call_loop_all_fail:
  assumes "\<forall>k. int k < retries \<longrightarrow> (\<exists>st. svc k = HTTPError st) \<or> svc k = Timeout"
    and "int attempt < retries"
    and "svc (nat (retries - 1)) \<noteq> HTTPError 429"
  shows "\<exists>e. fst (call_loop retries svc attempt tr) = Raised e"
  using assms
proof (induction retries svc attempt tr rule: call_loop.induct)
  case (1 retries svc attempt tr)
  from 1(4) 1(5) have here: "(\<exists>st. svc attempt = HTTPError st) \<or> svc attempt = Timeout"
    by blast
  show ?case
  proof (cases "int attempt < retries - 1")
    case True
    then have nxt: "int (attempt + 1) < retries" by simp
    from here show ?thesis
    proof
      assume "\<exists>st. svc attempt = HTTPError st"
      then obtain st where st: "svc attempt = HTTPError st" ..
      show ?thesis
        using 1(1) [OF 1(5) st _ 1(4) nxt 1(6)] 1(2) [OF 1(5) st _ True 1(4) nxt 1(6)] 1(5) st True
        by (subst call_loop.simps) auto
    next
      assume tm: "svc attempt = Timeout"
      show ?thesis
        using 1(3) [OF 1(5) tm True 1(4) nxt 1(6)] 1(5) tm True
        by (subst call_loop.simps) auto
    qed
  next
    case False
    with 1(5) have "nat (retries - 1) = attempt" by simp
    with 1(6) have "svc attempt \<noteq> HTTPError 429" by simp
    with here 1(5) False show ?thesis
      by (subst call_loop.simps) auto
  qed
qed

text \<open>
  C2: a call whose every attempt fails must raise and never return a value. The code
  does not: when the service answers HTTP 429 to all three attempts of the default
  budget, the loop sleeps after each of them, runs out, and the function returns the
  empty string.
\<close>

theorem C2_all_rate_limited_returns_empty:
  "call_cursor_api default_retries ((!) [HTTPError 429, HTTPError 429, HTTPError 429]) =
     (Returned [], [Post, Sleep 10, Post, Sleep 20, Post, Sleep 30])"
  by (simp add: call_cursor_api_def call_loop.simps default_retries_def)




section \<open>Dry run\<close>

text \<open>
  C7: a dry run leaves the file system as it is and reports the number of write
  operations as written, the number of delete operations as deleted, and nothing copied;
  a second dry run on the same operations reports the same.
\<close>

theorem C7_dry_run:
  "step_apply_changes files target_root ops True fs =
     (fs, Inr \<lparr>copied = 0, written = length (filter (\<lambda>c. action c = ''write'') ops),
               deleted = length (filter (\<lambda>c. action c = ''delete'') ops), skipped = 0\<rparr>) \<and>
   step_apply_changes files target_root ops True
       (fst (step_apply_changes files target_root ops True fs)) =
     step_apply_changes files target_root ops True fs"
  by (simp add: step_apply_changes_def)

section \<open>Parsing single markers\<close>

text \<open>
  C9: a response that consists of one write-marker between texts without \<^verbatim>\<open><\<close> parses to
  exactly one write operation, with the path of the marker less its leading separators
  and the content of the marker less its surrounding white space; one that consists of
  one delete-marker between such texts parses to exactly one delete operation. The
  responses \<^verbatim>\<open><FILE path="a/b.txt">hello</FILE>\<close> and \<^verbatim>\<open><DELETE path="/x/y" />\<close> are the
  instances of the witness.
\<close>

theorem C9_single_markers:
  assumes "lt \<notin> set pre" and "lt \<notin> set post"
    and "ws \<noteq> []" and "list_all isspace ws" and "list_all isspace ws'"
    and "p \<noteq> []" and "dquote \<notin> set p" and "lt \<notin> set p" and "lt \<notin> set c"
  shows "parse_file_blocks (pre @ write_marker ws p c @ post) =
           Inr [\<lparr>action = ''write'', path = lstrip_slash p, content = strip c\<rparr>] \<and>
         parse_file_blocks (pre @ delete_marker ws p ws' @ post) =
           Inr [\<lparr>action = ''delete'', path = lstrip_slash p, content = []\<rparr>]"
proof
  have sp: "lt \<notin> set ws" "lt \<notin> set ws'"
    using assms(4,5) by (auto dest: isspace_not_lt)
  have q: "lt \<noteq> dquote" by (simp add: lt_def dquote_def)
  let ?body = "str ''FILE'' @ ws @ str ''path=\"'' @ p @ str ''\">'' @ c"
  have w: "write_marker ws p c = lt # ?body @ lt # str ''/FILE>''"
    by (simp add: write_marker_def str_def lt_def)
  have f1: "finditer file_pattern (pre @ write_marker ws p c @ post) =
      [\<lparr>m_start = length pre, m_end = length pre + length (write_marker ws p c), m_groups = [p, c]\<rparr>]"
    using file_pattern_starts assms(1,2) yields_file_pattern [OF assms(3,4,6,7,9)]
    by (rule finditer_one) (simp add: write_marker_def str_def)
  have d1: "finditer delete_pattern (pre @ lt # ?body @ lt # str ''/FILE>'' @ post) = []"
  proof (rule finditer_none(2) [OF delete_pattern_starts assms(1,2)])
    show "lt \<notin> set ?body" using sp assms(8,9) by (simp add: str_def lt_def)
    show "lt \<notin> set (str ''/FILE>'')" by (simp add: str_def lt_def)
    show "match_here delete_pattern (lt # ?body @ s) = None" for s
      using delete_pattern_second [of 70] by (simp add: str_def)
    show "match_here delete_pattern (lt # str ''/FILE>'' @ s) = None" for s
      using delete_pattern_second [of 47] by (simp add: str_def)
  qed
  from f1 d1 show "parse_file_blocks (pre @ write_marker ws p c @ post) =
      Inr [\<lparr>action = ''write'', path = lstrip_slash p, content = strip c\<rparr>]"
    by (simp add: parse_file_blocks_eq w write_change_def)
next
  have sp: "lt \<notin> set ws" "lt \<notin> set ws'"
    using assms(4,5) by (auto dest: isspace_not_lt)
  let ?body = "str ''DELETE'' @ ws @ str ''path=\"'' @ p @ str ''\"'' @ ws' @ str ''/>''"
  have w: "delete_marker ws p ws' = lt # ?body"
    by (simp add: delete_marker_def str_def lt_def)
  have d1: "finditer delete_pattern (pre @ delete_marker ws p ws' @ post) =
      [\<lparr>m_start = length pre, m_end = length pre + length (delete_marker ws p ws'), m_groups = [p]\<rparr>]"
    using delete_pattern_starts assms(1,2) yields_delete_pattern [OF assms(3,4,6,7,5)]
    by (rule finditer_one) (simp add: delete_marker_def str_def)
  have f1: "finditer file_pattern (pre @ lt # ?body @ post) = []"
  proof (rule finditer_none(1) [OF file_pattern_starts assms(1,2)])
    show "lt \<notin> set ?body" using sp assms(8) by (simp add: str_def lt_def)
    show "lt \<notin> set (str ''/FILE>'')" by (simp add: str_def lt_def)
    show "match_here file_pattern (lt # ?body @ s) = None" for s
      using file_pattern_second [of 68] by (simp add: str_def)
    show "match_here file_pattern (lt # str ''/FILE>'' @ s) = None" for s
      using file_pattern_second [of 47] by (simp add: str_def)
  qed
  from f1 d1 show "parse_file_blocks (pre @ delete_marker ws p ws' @ post) =
      Inr [\<lparr>action = ''delete'', path = lstrip_slash p, content = []\<rparr>]"
    by (simp add: parse_file_blocks_eq w delete_change_def)
qed

theorem C9_single_markers_witness:
  "parse_file_blocks (str ''<FILE path=\"a/b.txt\">hello</FILE>'') =
     Inr [\<lparr>action = ''write'', path = str ''a/b.txt'', content = str ''hello''\<rparr>] \<and>
   parse_file_blocks (str ''<DELETE path=\"/x/y\" />'') =
     Inr [\<lparr>action = ''delete'', path = str ''x/y'', content = []\<rparr>] \<and>
   parse_file_blocks (str ''Changed: <FILE  path=\"a/b.txt\">  hello  </FILE> (1 file)'') =
     Inr [\<lparr>action = ''write'', path = str ''a/b.txt'', content = str ''hello''\<rparr>]"
proof -
  have sp: "list_all isspace (str '' '')" "list_all isspace (str ''  '')" "str '' '' \<noteq> []" "str ''  '' \<noteq> []"
    by (simp_all add: str_def isspace_def)
  have a: "parse_file_blocks ([] @ write_marker (str '' '') (str ''a/b.txt'') (str ''hello'') @ []) =
      Inr [\<lparr>action = ''write'', path = lstrip_slash (str ''a/b.txt''), content = strip (str ''hello'')\<rparr>]"
    using C9_single_markers [of "[]" "[]" "str '' ''" "str '' ''" "str ''a/b.txt''" "str ''hello''"] sp
    by (simp add: str_def lt_def dquote_def)
  have b: "parse_file_blocks ([] @ delete_marker (str '' '') (str ''/x/y'') (str '' '') @ []) =
      Inr [\<lparr>action = ''delete'', path = lstrip_slash (str ''/x/y''), content = []\<rparr>]"
    using C9_single_markers [of "[]" "[]" "str '' ''" "str '' ''" "str ''/x/y''" "[]"] sp
    by (simp add: str_def lt_def dquote_def)
  have c: "parse_file_blocks (str ''Changed: '' @ write_marker (str ''  '') (str ''a/b.txt'') (str ''  hello  '') @
        str '' (1 file)'') =
      Inr [\<lparr>action = ''write'', path = lstrip_slash (str ''a/b.txt''), content = strip (str ''  hello  '')\<rparr>]"
    using C9_single_markers [of "str ''Changed: ''" "str '' (1 file)''" "str ''  ''" "str '' ''"
        "str ''a/b.txt''" "str ''  hello  ''"] sp
    by (simp add: str_def lt_def dquote_def)
  from a b c show ?thesis
    by (simp add: write_marker_def delete_marker_def str_def lstrip_slash_def strip_def slash_def isspace_def)
qed

text \<open>
  C10: a delete-marker inside the content of a write-marker is extracted as an operation
  of its own, and stays in the content of the write operation.
\<close>

theorem C10_embedded_delete_marker:
  "parse_file_blocks (str ''<FILE path=\"a\">x<DELETE path=\"b\" />y</FILE>'') =
     Inr [\<lparr>action = ''write'', path = str ''a'', content = str ''x<DELETE path=\"b\" />y''\<rparr>,
          \<lparr>action = ''delete'', path = str ''b'', content = []\<rparr>]"
  by (simp add: parse_eval)

section \<open>What the parser returns\<close>

text \<open>
  C1, as the code has it: every operation that \<open>parse_file_blocks\<close> returns has a
  relative path, one without a leading separator.
\<close>

theorem C1_paths_relative:
  "parse_file_blocks r = Inr ops \<Longrightarrow> \<forall>c \<in> set ops. \<not> leading_separator (path c)"
  by (auto simp: parse_file_blocks_eq write_change_def delete_change_def lstrip_slash_no_leading)

theorem C1_paths_relative_witness:
  "parse_file_blocks (str ''<FILE path=\"//etc/x\">y</FILE>'') =
     Inr [\<lparr>action = ''write'', path = str ''etc/x'', content = str ''y''\<rparr>] \<and>
   \<not> leading_separator (str ''etc/x'')"
proof -
  have p: "parse_file_blocks (str ''<FILE path=\"//etc/x\">y</FILE>'') =
     Inr [\<lparr>action = ''write'', path = str ''etc/x'', content = str ''y''\<rparr>]"
    by (simp add: parse_eval)
  from C1_paths_relative [OF p] show ?thesis
    using p by simp
qed

text \<open>
  C1 as stated fails: a path may contain \<^verbatim>\<open>..\<close>, and then it names a location outside the
  target root. The write operation parsed from \<^verbatim>\<open><FILE path="../x">y</FILE>\<close>, applied
  under the target root \<^verbatim>\<open>/t\<close>, writes the file \<^verbatim>\<open>/x\<close>.
\<close>

theorem C1_traversal_counterexample:
  "parse_file_blocks (str ''<FILE path=\"../x\">y</FILE>'') =
     Inr [\<lparr>action = ''write'', path = str ''../x'', content = str ''y''\<rparr>] \<and>
   outside_root [str ''t''] (str ''../x'') \<and>
   fst (step_apply_changes [] [str ''t'']
          [\<lparr>action = ''write'', path = str ''../x'', content = str ''y''\<rparr>] False
          (Map.empty([str ''t''] \<mapsto> Dir))) [str ''x''] = Some (File (str ''y''))"
  apply (intro conjI)
    apply (simp add: parse_eval)
   apply (simp add: outside_root_def lexical_def step_to_def joinpath_def path_parts_def dot_def dotdot_def str_def slash_def)
  apply (simp add: step_apply_changes_def apply_change_def joinpath_def path_parts_def dot_def dotdot_def str_def slash_def
      mkdir_parents.simps os_mkdir_def node_at_def write_text_def surrogate_def is_dir_def step_to_def)
  done

text \<open>
  C4: \<open>parse_file_blocks\<close> returns a list of operations for every text and never
  raises; for a text that contains neither a write-marker nor a delete-marker the list
  is empty.
\<close>

theorem C4_parse_total:
  "(\<exists>ops. parse_file_blocks r = Inr ops) \<and>
   (\<not> contains_marker is_write_marker r \<and> \<not> contains_marker is_delete_marker r \<longrightarrow>
      parse_file_blocks r = Inr [])"
  using parse_file_blocks_Nil_iff [of r] by (simp add: parse_file_blocks_eq)

theorem C4_parse_total_witness:
  "\<not> contains_marker is_write_marker (str ''Nothing to change. <FILE> </FILE>'') \<and>
   \<not> contains_marker is_delete_marker (str ''Nothing to change. <FILE> </FILE>'') \<and>
   parse_file_blocks (str ''Nothing to change. <FILE> </FILE>'') = Inr []"
proof -
  have "parse_file_blocks (str ''Nothing to change. <FILE> </FILE>'') = Inr []"
    by (simp add: parse_eval)
  then have "\<not> contains_marker is_write_marker (str ''Nothing to change. <FILE> </FILE>'') \<and>
      \<not> contains_marker is_delete_marker (str ''Nothing to change. <FILE> </FILE>'')"
    by (simp add: parse_file_blocks_Nil_iff)
  with C4_parse_total [of "str ''Nothing to change. <FILE> </FILE>''"] show ?thesis
    by blast
qed

text \<open>
  C8: the result is the write operations of the write-markers found in the text, in the
  order of their positions, followed by the delete operations of the delete-markers
  found in the text, in the order of their positions.
\<close>

theorem C8_writes_before_deletes:
  "parse_file_blocks r =
     Inr (map write_change (finditer file_pattern r) @ map delete_change (finditer delete_pattern r)) \<and>
   sorted_wrt (\<lambda>a b. m_end a \<le> m_start b) (finditer file_pattern r) \<and>
   sorted_wrt (\<lambda>a b. m_end a \<le> m_start b) (finditer delete_pattern r) \<and>
   (\<forall>m \<in> set (finditer file_pattern r).
      is_write_marker (slice r (m_start m) (m_end m)) \<and> action (write_change m) = ''write'') \<and>
   (\<forall>m \<in> set (finditer delete_pattern r).
      is_delete_marker (slice r (m_start m) (m_end m)) \<and> action (delete_change m) = ''delete'')"
  using finditer_matches(4) [of _ file_pattern r] finditer_matches(4) [of _ delete_pattern r]
  by (simp add: parse_file_blocks_eq finditer_ordered matches_file_pattern matches_delete_pattern
      write_change_def delete_change_def)

theorem C8_writes_before_deletes_witness:
  "finditer file_pattern (str ''<DELETE path=\"b\" /><FILE path=\"a\">x</FILE><DELETE path=\"c\"/>'') =
     [\<lparr>m_start = 19, m_end = 42, m_groups = [str ''a'', str ''x'']\<rparr>] \<and>
   finditer delete_pattern (str ''<DELETE path=\"b\" /><FILE path=\"a\">x</FILE><DELETE path=\"c\"/>'') =
     [\<lparr>m_start = 0, m_end = 19, m_groups = [str ''b'']\<rparr>,
      \<lparr>m_start = 42, m_end = 60, m_groups = [str ''c'']\<rparr>] \<and>
   parse_file_blocks (str ''<DELETE path=\"b\" /><FILE path=\"a\">x</FILE><DELETE path=\"c\"/>'') =
     Inr [\<lparr>action = ''write'', path = str ''a'', content = str ''x''\<rparr>,
          \<lparr>action = ''delete'', path = str ''b'', content = []\<rparr>,
          \<lparr>action = ''delete'', path = str ''c'', content = []\<rparr>] \<and>
   is_write_marker (slice (str ''<DELETE path=\"b\" /><FILE path=\"a\">x</FILE><DELETE path=\"c\"/>'') 19 42) \<and>
   is_delete_marker (slice (str ''<DELETE path=\"b\" /><FILE path=\"a\">x</FILE><DELETE path=\"c\"/>'') 0 19) \<and>
   is_delete_marker (slice (str ''<DELETE path=\"b\" /><FILE path=\"a\">x</FILE><DELETE path=\"c\"/>'') 42 60)"
proof -
  let ?r = "str ''<DELETE path=\"b\" /><FILE path=\"a\">x</FILE><DELETE path=\"c\"/>''"
  have f: "finditer file_pattern ?r = [\<lparr>m_start = 19, m_end = 42, m_groups = [str ''a'', str ''x'']\<rparr>]"
    by (simp add: parse_eval)
  have d: "finditer delete_pattern ?r =
     [\<lparr>m_start = 0, m_end = 19, m_groups = [str ''b'']\<rparr>,
      \<lparr>m_start = 42, m_end = 60, m_groups = [str ''c'']\<rparr>]"
    by (simp add: parse_eval)
  have w: "write_change \<lparr>m_start = 19, m_end = 42, m_groups = [str ''a'', str ''x'']\<rparr> =
      \<lparr>action = ''write'', path = str ''a'', content = str ''x''\<rparr>"
    by (simp add: write_change_def parse_eval)
  have e: "delete_change \<lparr>m_start = 0, m_end = 19, m_groups = [str ''b'']\<rparr> =
      \<lparr>action = ''delete'', path = str ''b'', content = []\<rparr>"
    "delete_change \<lparr>m_start = 42, m_end = 60, m_groups = [str ''c'']\<rparr> =
      \<lparr>action = ''delete'', path = str ''c'', content = []\<rparr>"
    by (simp_all add: delete_change_def parse_eval)
  from C8_writes_before_deletes [of ?r] show ?thesis
    unfolding f d by (simp add: w e)
qed

section \<open>The file system operations\<close>

lemma walk_foldl: "walk fs cur cs = Inr q \<Longrightarrow> q = foldl step_to cur cs"
  by (induction cs arbitrary: cur) (auto split: option.splits node.splits)

lemma walk_lexical: "walk fs [] p = Inr q \<Longrightarrow> q = lexical p"
  by (simp add: lexical_def walk_foldl)

lemma foldl_step_plain: "dotdot \<notin> set cs \<Longrightarrow> foldl step_to cur cs = cur @ cs"
  by (induction cs arbitrary: cur) (auto simp: step_to_def)

lemma lexical_plain: "dotdot \<notin> set p \<Longrightarrow> lexical p = p"
  by (simp add: lexical_def foldl_step_plain)









lemma holds_file_upd_Dir [simp]: "holds_file (fs(q \<mapsto> Dir)) k \<longleftrightarrow> k \<noteq> q \<and> holds_file fs k"
  by (simp add: holds_file_def)

lemma holds_file_upd_File [simp]: "holds_file (fs(q \<mapsto> File d)) k \<longleftrightarrow> k = q \<or> holds_file fs k"
  by (simp add: holds_file_def)

lemma holds_file_upd_None [simp]: "holds_file (fs(q := None)) k \<longleftrightarrow> k \<noteq> q \<and> holds_file fs k"
  by (simp add: holds_file_def)

text \<open>Creating directories creates no file and removes none.\<close>

lemma os_mkdir_holds: "os_mkdir fs p = Inr fs' \<Longrightarrow> holds_file fs' k = holds_file fs k"
  by (auto simp: os_mkdir_def node_at_def holds_file_def split: sum.splits if_splits)

lemma mkdir_parents_holds: "holds_file (fst (mkdir_parents fs p)) k = holds_file fs k"
proof (induction fs p rule: mkdir_parents.induct)
  case (1 fs p)
  show ?case
  proof (cases "os_mkdir fs p")
    case (Inr fs')
    then show ?thesis
      by (subst mkdir_parents.simps) (simp add: os_mkdir_holds)
  next
    case (Inl e)
    show ?thesis
    proof (cases "e = FileNotFoundError \<and> p \<noteq> []")
      case False
      with Inl show ?thesis
        by (subst mkdir_parents.simps) auto
    next
      case True
      obtain fs1 r1 where m: "mkdir_parents fs (butlast p) = (fs1, r1)"
        by (cases "mkdir_parents fs (butlast p)")
      from "1.IH" [OF Inl] True m have ih: "holds_file fs1 k = holds_file fs k" by simp
      show ?thesis
        using Inl True m ih
        by (subst mkdir_parents.simps) (auto simp: os_mkdir_holds split: option.splits sum.splits)
    qed
  qed
qed

lemma copy2_holds:
  assumes "copy2 name d fs p = (fs', r)" and "holds_file fs' k"
    and "dotdot \<notin> set p" and "name \<noteq> dotdot"
  shows "holds_file fs k \<or> k = p \<or> k = p @ [name]"
proof -
  let ?p' = "if is_dir fs p then p @ [name] else p"
  have plain: "dotdot \<notin> set ?p'" using assms(3,4) by auto
  show ?thesis
  proof (cases "walk fs [] ?p'")
    case (Inl e)
    with assms(1,2) show ?thesis by (simp add: copy2_def Let_def)
  next
    case (Inr q)
    from walk_lexical [OF Inr] plain have "q = ?p'" by (simp add: lexical_plain)
    with Inr assms(1,2) show ?thesis
      by (auto simp: copy2_def Let_def split: if_splits)
  qed
qed

lemma copy_file_holds:
  assumes "copy_file root f fs = (fs', r)" and "holds_file fs' k"
    and "dotdot \<notin> set root" and "rel_parts f \<noteq> []" and "dotdot \<notin> set (rel_parts f)"
  shows "holds_file fs k \<or> k = root @ rel_parts f \<or> k = root @ rel_parts f @ [last (rel_parts f)]"
proof -
  obtain fs1 r1 where m: "mkdir_parents fs (butlast (root @ rel_parts f)) = (fs1, r1)"
    by (cases "mkdir_parents fs (butlast (root @ rel_parts f))")
  then have h1: "holds_file fs1 k = holds_file fs k"
    using mkdir_parents_holds [of fs "butlast (root @ rel_parts f)" k] by simp
  show ?thesis
  proof (cases r1)
    case (Some e)
    with assms(1,2) m h1 show ?thesis by (simp add: copy_file_def Let_def)
  next
    case None
    with assms(1) m have c: "copy2 (last (rel_parts f)) (file_data f) fs1 (root @ rel_parts f) = (fs', r)"
      by (simp add: copy_file_def Let_def)
    have "last (rel_parts f) \<noteq> dotdot" using assms(4,5) last_in_set by metis
    from copy2_holds [OF c assms(2) _ this] assms(3,5) h1 show ?thesis by auto
  qed
qed

lemma copy_loop_holds:
  assumes "\<forall>f \<in> set files. rel_parts f \<noteq> [] \<and> dotdot \<notin> set (rel_parts f)"
    and "dotdot \<notin> set root" and "under_convex rel" and "\<not> holds_file fs (root @ rel)"
  shows "\<not> holds_file (fst (copy_loop root files fs st)) (root @ rel)"
  using assms
proof (induction files arbitrary: fs st)
  case Nil
  then show ?case by simp
next
  case (Cons f files)
  show ?case
  proof (cases "rel_parts f \<noteq> [] \<and> hd (rel_parts f) = convex")
    case True
    with Cons show ?thesis by simp
  next
    case False
    obtain fs1 r1 where c: "copy_file root f fs = (fs1, r1)" by (cases "copy_file root f fs")
    from Cons.prems(1) have f: "rel_parts f \<noteq> []" "dotdot \<notin> set (rel_parts f)" by auto
    with False have hd: "hd (rel_parts f) \<noteq> convex" by simp
    from Cons.prems(3) have rel: "rel \<noteq> []" "hd rel = convex" by (auto simp: under_convex_def)
    have ne1: "rel \<noteq> rel_parts f" using hd rel by auto
    have ne2: "rel \<noteq> rel_parts f @ [last (rel_parts f)]" using hd rel f by (cases "rel_parts f") auto
    have keep: "\<not> holds_file fs1 (root @ rel)"
      using copy_file_holds [OF c _ Cons.prems(2) f, of "root @ rel"] Cons.prems(4) ne1 ne2 by auto
    show ?thesis
    proof (cases r1)
      case (Some e)
      with hd c keep show ?thesis by simp
    next
      case None
      from Cons.IH [OF _ Cons.prems(2,3) keep] Cons.prems(1)
      have "\<not> holds_file (fst (copy_loop root files fs1 (st\<lparr>copied := copied st + 1\<rparr>))) (root @ rel)"
        by simp
      with hd c None show ?thesis by simp
    qed
  qed
qed

lemma write_text_holds:
  assumes "write_text fs p d = (fs', r)" and "holds_file fs' k"
  shows "holds_file fs k \<or> k = lexical p"
  using assms walk_lexical [of fs p]
  by (auto simp: write_text_def split: sum.splits if_splits)

lemma unlink_holds: "unlink fs p = (fs', r) \<Longrightarrow> holds_file fs' k \<Longrightarrow> holds_file fs k"
  by (auto simp: unlink_def split: sum.splits option.splits node.splits if_splits)

lemma apply_change_holds:
  assumes "apply_change root c fs st = (fs', r)" and "holds_file fs' k"
  shows "holds_file fs k \<or> (action c = ''write'' \<and> k = lexical (joinpath root (path c)))"
proof (cases "action c = ''write''")
  case True
  obtain fs1 r1 where m: "mkdir_parents fs (butlast (joinpath root (path c))) = (fs1, r1)"
    by (cases "mkdir_parents fs (butlast (joinpath root (path c)))")
  then have h1: "holds_file fs1 k = holds_file fs k"
    using mkdir_parents_holds [of fs "butlast (joinpath root (path c))" k] by simp
  obtain fs2 r2 where w: "write_text fs1 (joinpath root (path c)) (content c) = (fs2, r2)"
    by (cases "write_text fs1 (joinpath root (path c)) (content c)")
  from assms True m w have "fs' = fs1 \<or> fs' = fs2"
    by (auto simp: apply_change_def Let_def split: option.splits)
  with write_text_holds [OF w, of k] h1 assms(2) True show ?thesis by auto
next
  case False
  with assms show ?thesis
    by (auto simp: apply_change_def Let_def split: if_splits prod.splits option.splits
        dest: unlink_holds)
qed

lemma apply_loop_holds:
  assumes "\<forall>c \<in> set cs. action c = ''write'' \<longrightarrow> lexical (joinpath root (path c)) \<noteq> k"
    and "\<not> holds_file fs k"
  shows "\<not> holds_file (fst (apply_loop root cs fs st)) k"
  using assms
proof (induction cs arbitrary: fs st)
  case Nil
  then show ?case by simp
next
  case (Cons c cs)
  obtain fs1 r1 where a: "apply_change root c fs st = (fs1, r1)"
    by (cases "apply_change root c fs st")
  from apply_change_holds [OF a, of k] Cons.prems have keep: "\<not> holds_file fs1 k" by auto
  show ?case
  proof (cases r1)
    case (Inl e)
    with a keep show ?thesis by simp
  next
    case (Inr st1)
    from Cons.IH [OF _ keep, of st1] Cons.prems(1) a Inr show ?thesis by simp
  qed
qed

lemma copy_loop_filter:
  "copy_loop root files fs st =
     copy_loop root (filter (\<lambda>f. \<not> under_convex (rel_parts f)) files) fs st"
  by (induction files arbitrary: fs st) (auto simp: under_convex_def split: prod.splits option.splits)

lemma copy_loop_count:
  "copy_loop root files fs st = (fs', Inr st') \<Longrightarrow>
   copied st' = copied st + length (filter (\<lambda>f. \<not> under_convex (rel_parts f)) files)"
proof (induction files arbitrary: fs st)
  case Nil
  then show ?case by simp
next
  case (Cons f files)
  show ?case
  proof (cases "under_convex (rel_parts f)")
    case True
    with Cons show ?thesis by (simp add: under_convex_def)
  next
    case False
    with Cons.prems obtain fs1 where
      "copy_loop root files fs1 (st\<lparr>copied := copied st + 1\<rparr>) = (fs', Inr st')"
      by (auto simp: under_convex_def split: prod.splits option.splits)
    from Cons.IH [OF this] False show ?thesis by simp
  qed
qed

section \<open>The copy loop on an empty target\<close>

lemma node_at_nonempty: "p \<noteq> [] \<Longrightarrow> node_at fs p = fs p"
  by (simp add: node_at_def)

lemma step_to_plain: "dotdot \<notin> set (c # cs) \<Longrightarrow> step_to cur c = cur @ [c]"
  by (auto simp: step_to_def)

lemma walk_plain_ok:
  "dotdot \<notin> set cs \<Longrightarrow> (\<forall>k<length cs. node_at fs (cur @ take k cs) = Some Dir) \<Longrightarrow>
   walk fs cur cs = Inr (cur @ cs)"
proof (induction cs arbitrary: cur)
  case Nil
  then show ?case by simp
next
  case (Cons c cs)
  from Cons.prems(2) have "node_at fs (cur @ take 0 (c # cs)) = Some Dir" by blast
  then have d: "node_at fs cur = Some Dir" by simp
  have "\<forall>k<length cs. node_at fs ((cur @ [c]) @ take k cs) = Some Dir"
  proof (intro allI impI)
    fix k assume "k < length cs"
    then have "Suc k < length (c # cs)" by simp
    with Cons.prems(2) have "node_at fs (cur @ take (Suc k) (c # cs)) = Some Dir" by blast
    then show "node_at fs ((cur @ [c]) @ take k cs) = Some Dir" by simp
  qed
  from Cons.IH [OF _ this] Cons.prems(1) d show ?case
    by (simp add: step_to_plain [OF Cons.prems(1)])
qed

lemma walk_plain_dirs:
  "dotdot \<notin> set cs \<Longrightarrow> walk fs cur cs = Inr q \<Longrightarrow> k < length cs \<Longrightarrow>
   node_at fs (cur @ take k cs) = Some Dir"
proof (induction cs arbitrary: cur k)
  case Nil
  then show ?case by simp
next
  case (Cons c cs)
  from Cons.prems(2) have d: "node_at fs cur = Some Dir"
    by (auto split: option.splits node.splits)
  with Cons.prems have w: "walk fs (cur @ [c]) cs = Inr q"
    by (simp add: step_to_plain [OF Cons.prems(1)])
  show ?case
  proof (cases k)
    case 0
    with d show ?thesis by simp
  next
    case (Suc j)
    with Cons.prems(3) have "j < length cs" by simp
    from Cons.IH [OF _ w this] Cons.prems(1) show ?thesis by (simp add: Suc)
  qed
qed

lemma walk_plain_fail:
  "dotdot \<notin> set cs \<Longrightarrow> walk fs cur cs = Inl e \<Longrightarrow>
   (\<forall>k<length cs. \<forall>d. node_at fs (cur @ take k cs) \<noteq> Some (File d)) \<Longrightarrow>
   e = FileNotFoundError"
proof (induction cs arbitrary: cur)
  case Nil
  then show ?case by simp
next
  case (Cons c cs)
  from Cons.prems(3) have "\<forall>d. node_at fs (cur @ take 0 (c # cs)) \<noteq> Some (File d)" by blast
  then have nf: "\<forall>d. node_at fs cur \<noteq> Some (File d)" by simp
  show ?case
  proof (cases "node_at fs cur")
    case None
    with Cons.prems(2) show ?thesis by simp
  next
    case (Some n)
    with nf have n: "n = Dir" by (cases n) auto
    with Some Cons.prems have w: "walk fs (cur @ [c]) cs = Inl e"
      by (simp add: step_to_plain [OF Cons.prems(1)])
    have "\<forall>k<length cs. \<forall>d. node_at fs ((cur @ [c]) @ take k cs) \<noteq> Some (File d)"
    proof (intro allI impI)
      fix k d assume "k < length cs"
      then have "Suc k < length (c # cs)" by simp
      with Cons.prems(3) have "node_at fs (cur @ take (Suc k) (c # cs)) \<noteq> Some (File d)" by blast
      then show "node_at fs ((cur @ [c]) @ take k cs) \<noteq> Some (File d)" by simp
    qed
    from Cons.IH [OF _ w this] Cons.prems(1) show ?thesis by simp
  qed
qed


lemma take_neq: "k < length p \<Longrightarrow> take k p \<noteq> p"
  by (auto dest: arg_cong [where f = length])

lemma snoc_neq_take: "xs @ [x] \<noteq> take k xs"
  by (auto dest: arg_cong [where f = length])

text \<open>
  \<open>mkdir_parents\<close> succeeds on a path without \<^verbatim>\<open>..\<close> none of whose prefixes is a file: it
  makes every prefix a directory and touches nothing else.
\<close>

lemma mkdir_parents_ok:
  assumes "dotdot \<notin> set p"
    and "\<forall>k\<le>length p. \<forall>d. node_at fs (take k p) \<noteq> Some (File d)"
  shows "\<exists>fs'. mkdir_parents fs p = (fs', None) \<and>
           (\<forall>k\<le>length p. node_at fs' (take k p) = Some Dir) \<and>
           (\<forall>q. fs' q = fs q \<or> (fs q = None \<and> fs' q = Some Dir \<and> (\<exists>k\<le>length p. q = take k p)))"
  using assms
proof (induction p rule: rev_induct)
  case Nil
  have "mkdir_parents fs [] = (fs, None)"
    by (subst mkdir_parents.simps) (simp add: os_mkdir_def node_at_def is_dir_def)
  then show ?case by (simp add: node_at_def)
next
  case (snoc x xs)
  let ?p = "xs @ [x]"
  have plain: "dotdot \<notin> set ?p" and plain': "dotdot \<notin> set xs" using snoc.prems(1) by auto
  have nf: "\<forall>d. node_at fs ?p \<noteq> Some (File d)"
    using snoc.prems(2) [rule_format, of "length ?p"] by simp
  have pne: "?p \<noteq> []" by simp
  have nf_pre: "\<forall>k<length ?p. \<forall>d. node_at fs ([] @ take k ?p) \<noteq> Some (File d)"
  proof (intro allI impI)
    fix k d assume "k < length ?p"
    then have "k \<le> length ?p" by simp
    from snoc.prems(2) [rule_format, OF this, of d]
    show "node_at fs ([] @ take k ?p) \<noteq> Some (File d)" by simp
  qed
  have nf_xs: "\<forall>k\<le>length xs. \<forall>d. node_at fs (take k xs) \<noteq> Some (File d)"
  proof (intro allI impI)
    fix k d assume "k \<le> length xs"
    with snoc.prems(2) [rule_format, of k d] show "node_at fs (take k xs) \<noteq> Some (File d)" by simp
  qed
  show ?case
  proof (cases "walk fs [] ?p")
    case (Inr q)
    from walk_lexical [OF Inr] plain have q: "q = ?p" by (simp add: lexical_plain)
    have dirs: "\<forall>k<length ?p. node_at fs (take k ?p) = Some Dir"
      using walk_plain_dirs [OF plain Inr] by simp
    show ?thesis
    proof (cases "node_at fs ?p")
      case None
      then have fsp: "fs ?p = None" by (simp add: node_at_def)
      from Inr q None have m: "mkdir_parents fs ?p = (fs(?p \<mapsto> Dir), None)"
        by (subst mkdir_parents.simps) (simp add: os_mkdir_def)
      have "\<forall>k\<le>length ?p. node_at (fs(?p \<mapsto> Dir)) (take k ?p) = Some Dir"
      proof (intro allI impI)
        fix k assume k: "k \<le> length ?p"
        show "node_at (fs(?p \<mapsto> Dir)) (take k ?p) = Some Dir"
        proof (cases "k = length ?p")
          case True
          then show ?thesis by (simp add: node_at_def)
        next
          case False
          with k have lt: "k < length ?p" by simp
          then have "take k ?p \<noteq> ?p" by (rule take_neq)
          with dirs lt show ?thesis by (auto simp: node_at_def)
        qed
      qed
      moreover have "\<forall>q. (fs(?p \<mapsto> Dir)) q = fs q \<or>
          (fs q = None \<and> (fs(?p \<mapsto> Dir)) q = Some Dir \<and> (\<exists>k\<le>length ?p. q = take k ?p))"
        using fsp by (auto intro: exI [of _ "length ?p"])
      ultimately show ?thesis using m by blast
    next
      case (Some n)
      with nf have n: "node_at fs ?p = Some Dir" by (cases n) auto
      with Inr q have "is_dir fs ?p" by (simp add: is_dir_def)
      with Inr q n have m: "mkdir_parents fs ?p = (fs, None)"
        by (subst mkdir_parents.simps) (simp add: os_mkdir_def)
      have "\<forall>k\<le>length ?p. node_at fs (take k ?p) = Some Dir"
      proof (intro allI impI)
        fix k assume "k \<le> length ?p"
        with dirs n show "node_at fs (take k ?p) = Some Dir"
          by (cases "k = length ?p") auto
      qed
      with m show ?thesis by simp
    qed
  next
    case (Inl e)
    from walk_plain_fail [OF plain Inl nf_pre] have e: "e = FileNotFoundError" .
    from snoc.IH [OF plain' nf_xs] obtain fs1 where
      m1: "mkdir_parents fs xs = (fs1, None)"
      and d1: "\<forall>k\<le>length xs. node_at fs1 (take k xs) = Some Dir"
      and u1: "\<forall>q. fs1 q = fs q \<or> (fs q = None \<and> fs1 q = Some Dir \<and> (\<exists>k\<le>length xs. q = take k xs))"
      by blast
    have "\<forall>k<length ?p. node_at fs1 ([] @ take k ?p) = Some Dir"
      using d1 by simp
    from walk_plain_ok [OF plain this] have w1: "walk fs1 [] ?p = Inr ?p" by simp
    have same: "fs1 ?p = fs ?p"
    proof -
      have "\<not> (\<exists>k\<le>length xs. ?p = take k xs)"
        using snoc_neq_take [of xs x] by blast
      with u1 show ?thesis by blast
    qed
    then have nf1: "\<forall>d. node_at fs1 ?p \<noteq> Some (File d)" using nf by (simp add: node_at_def)
    have unfold: "mkdir_parents fs ?p =
        (case os_mkdir fs1 ?p of
           Inr fs2 \<Rightarrow> (fs2, None)
         | Inl e2 \<Rightarrow> if e2 \<noteq> FileNotFoundError \<and> is_dir fs1 ?p then (fs1, None) else (fs1, Some e2))"
      using Inl e m1 by (subst mkdir_parents.simps) (simp add: os_mkdir_def)
    show ?thesis
    proof (cases "node_at fs1 ?p")
      case None
      then have fsp: "fs1 ?p = None" by (simp add: node_at_def)
      from w1 None unfold have m: "mkdir_parents fs ?p = (fs1(?p \<mapsto> Dir), None)"
        by (simp add: os_mkdir_def)
      have "\<forall>k\<le>length ?p. node_at (fs1(?p \<mapsto> Dir)) (take k ?p) = Some Dir"
      proof (intro allI impI)
        fix k assume k: "k \<le> length ?p"
        show "node_at (fs1(?p \<mapsto> Dir)) (take k ?p) = Some Dir"
        proof (cases "k = length ?p")
          case True
          then show ?thesis by (simp add: node_at_def)
        next
          case False
          with k have lt: "k \<le> length xs" by simp
          with d1 have "node_at fs1 (take k xs) = Some Dir" by blast
          moreover from lt have "take k ?p = take k xs" by simp
          moreover have "take k xs \<noteq> ?p"
            using snoc_neq_take [of xs x k] by simp
          ultimately show ?thesis by (auto simp: node_at_def)
        qed
      qed
      moreover have "\<forall>q. (fs1(?p \<mapsto> Dir)) q = fs q \<or>
          (fs q = None \<and> (fs1(?p \<mapsto> Dir)) q = Some Dir \<and> (\<exists>k\<le>length ?p. q = take k ?p))"
      proof
        fix q
        show "(fs1(?p \<mapsto> Dir)) q = fs q \<or>
          (fs q = None \<and> (fs1(?p \<mapsto> Dir)) q = Some Dir \<and> (\<exists>k\<le>length ?p. q = take k ?p))"
        proof (cases "q = ?p")
          case True
          with fsp same show ?thesis by (auto intro: exI [of _ "length ?p"])
        next
          case False
          from u1 have "fs1 q = fs q \<or> (fs q = None \<and> fs1 q = Some Dir \<and> (\<exists>k\<le>length xs. q = take k xs))"
            by blast
          then show ?thesis
          proof
            assume "fs1 q = fs q" with False show ?thesis by simp
          next
            assume a: "fs q = None \<and> fs1 q = Some Dir \<and> (\<exists>k\<le>length xs. q = take k xs)"
            then obtain k where "k \<le> length xs" "q = take k xs" by blast
            then have "k \<le> length ?p \<and> q = take k ?p" by simp
            with a False show ?thesis by auto
          qed
        qed
      qed
      ultimately show ?thesis using m by blast
    next
      case (Some n)
      with nf1 have n: "node_at fs1 ?p = Some Dir" by (cases n) auto
      with w1 have "is_dir fs1 ?p" by (simp add: is_dir_def)
      with w1 n unfold have m: "mkdir_parents fs ?p = (fs1, None)"
        by (simp add: os_mkdir_def)
      have "\<forall>k\<le>length ?p. node_at fs1 (take k ?p) = Some Dir"
      proof (intro allI impI)
        fix k assume k: "k \<le> length ?p"
        show "node_at fs1 (take k ?p) = Some Dir"
        proof (cases "k = length ?p")
          case True with n show ?thesis by simp
        next
          case False
          with k have "k \<le> length xs" by simp
          with d1 show ?thesis by simp
        qed
      qed
      moreover have "\<forall>q. fs1 q = fs q \<or>
          (fs q = None \<and> fs1 q = Some Dir \<and> (\<exists>k\<le>length ?p. q = take k ?p))"
      proof
        fix q
        from u1 have "fs1 q = fs q \<or> (fs q = None \<and> fs1 q = Some Dir \<and> (\<exists>k\<le>length xs. q = take k xs))"
          by blast
        then show "fs1 q = fs q \<or>
          (fs q = None \<and> fs1 q = Some Dir \<and> (\<exists>k\<le>length ?p. q = take k ?p))"
        proof
          assume "fs1 q = fs q" then show ?thesis by simp
        next
          assume a: "fs q = None \<and> fs1 q = Some Dir \<and> (\<exists>k\<le>length xs. q = take k xs)"
          then obtain k where "k \<le> length xs" "q = take k xs" by blast
          then have "k \<le> length ?p \<and> q = take k ?p" by simp
          with a show ?thesis by auto
        qed
      qed
      ultimately show ?thesis using m by blast
    qed
  qed
qed


lemma copy_file_ok:
  assumes root: "dotdot \<notin> set root" and r: "rel_parts f \<noteq> []" "dotdot \<notin> set (rel_parts f)"
    and clear: "root_clear fs root" and rdy: "ready fs root (rel_parts f)"
  shows "\<exists>fs1. copy_file root f fs = (fs1(root @ rel_parts f \<mapsto> File (file_data f)), None) \<and>
           (\<forall>q. fs1 q = fs q \<or>
                (fs q = None \<and> fs1 q = Some Dir \<and>
                 (\<exists>k<length (root @ rel_parts f). q = take k (root @ rel_parts f))))"
proof -
  let ?r = "rel_parts f"
  let ?dest = "root @ ?r"
  let ?par = "butlast ?dest"
  have par: "?par = root @ butlast ?r" using r(1) by (simp add: butlast_append)
  have lpar: "length ?par = length root + (length ?r - 1)" by (simp add: par)
  have plain_d: "dotdot \<notin> set ?dest" using root r(2) by simp
  have plain_p: "dotdot \<notin> set ?par" using plain_d by (auto dest: in_set_butlastD)
  have dne: "?dest \<noteq> []" using r(1) by simp
  have take_par: "take k ?par = take k ?dest" if "k \<le> length ?par" for k
  proof -
    from that dne have "k < length ?dest" by (cases "?dest" rule: rev_cases) auto
    then show ?thesis by (rule take_butlast)
  qed
  have nf: "\<forall>k\<le>length ?par. \<forall>d. node_at fs (take k ?par) \<noteq> Some (File d)"
  proof (intro allI impI)
    fix k d assume k: "k \<le> length ?par"
    show "node_at fs (take k ?par) \<noteq> Some (File d)"
    proof (cases "k \<le> length root")
      case True
      then have "take k ?par = take k root" by (simp add: par)
      with clear True show ?thesis by (simp add: root_clear_def)
    next
      case False
      then have "take k ?par = root @ take (k - length root) ?r"
        using k by (simp add: take_par)
      moreover have "k - length root < length ?r" using k False r(1) by (simp add: lpar)
      ultimately show ?thesis using rdy by (simp add: ready_def)
    qed
  qed
  from mkdir_parents_ok [OF plain_p nf] obtain fs1 where
    m: "mkdir_parents fs ?par = (fs1, None)"
    and d1: "\<forall>k\<le>length ?par. node_at fs1 (take k ?par) = Some Dir"
    and u1: "\<forall>q. fs1 q = fs q \<or> (fs q = None \<and> fs1 q = Some Dir \<and> (\<exists>k\<le>length ?par. q = take k ?par))"
    by blast
  have "\<forall>k<length ?dest. node_at fs1 ([] @ take k ?dest) = Some Dir"
  proof (intro allI impI)
    fix k assume "k < length ?dest"
    then have k: "k \<le> length ?par" by simp
    with d1 have "node_at fs1 (take k ?par) = Some Dir" by blast
    then show "node_at fs1 ([] @ take k ?dest) = Some Dir"
      by (simp only: take_par [OF k] append_Nil)
  qed
  from walk_plain_ok [OF plain_d this] have w: "walk fs1 [] ?dest = Inr ?dest" by simp
  have same: "fs1 ?dest = fs ?dest"
  proof -
    have "?dest \<noteq> take k ?par" for k
    proof
      assume "?dest = take k ?par"
      then have "length ?dest = length (take k ?par)" by (rule arg_cong)
      also have "\<dots> \<le> length ?dest - 1" by simp
      finally show False using dne by (cases "?dest") auto
    qed
    with u1 show ?thesis by blast
  qed
  have nd: "node_at fs1 ?dest \<noteq> Some Dir"
  proof -
    from rdy have "node_at fs ?dest \<noteq> Some Dir" by (simp add: ready_def)
    then have "fs ?dest \<noteq> Some Dir" by (simp add: node_at_nonempty [OF dne])
    with same show ?thesis by (simp add: node_at_nonempty [OF dne])
  qed
  with w have "\<not> is_dir fs1 ?dest" by (simp add: is_dir_def)
  with w nd m have "copy_file root f fs = (fs1(?dest \<mapsto> File (file_data f)), None)"
    by (simp add: copy_file_def copy2_def)
  moreover have "\<forall>q. fs1 q = fs q \<or>
       (fs q = None \<and> fs1 q = Some Dir \<and> (\<exists>k<length ?dest. q = take k ?dest))"
  proof
    fix q
    from u1 have "fs1 q = fs q \<or> (fs q = None \<and> fs1 q = Some Dir \<and> (\<exists>k\<le>length ?par. q = take k ?par))"
      by blast
    then show "fs1 q = fs q \<or>
       (fs q = None \<and> fs1 q = Some Dir \<and> (\<exists>k<length ?dest. q = take k ?dest))"
    proof
      assume "fs1 q = fs q" then show ?thesis by simp
    next
      assume a: "fs q = None \<and> fs1 q = Some Dir \<and> (\<exists>k\<le>length ?par. q = take k ?par)"
      then obtain k where k: "k \<le> length ?par" "q = take k ?par" by blast
      from k(1) dne have "k < length ?dest" by (cases "?dest" rule: rev_cases) auto
      moreover from k have "q = take k ?dest" by (simp only: take_par [OF k(1)])
      ultimately have "k < length ?dest \<and> q = take k ?dest" ..
      with a show ?thesis by blast
    qed
  qed
  ultimately show ?thesis by blast
qed


lemma append_eq_take_append:
  assumes "root @ g = take k (root @ r)"
  shows "g = take (k - length root) r"
proof -
  from assms have "length (root @ g) = length (take k (root @ r))" by (rule arg_cong)
  then have "length root \<le> k" by (simp add: min_def split: if_splits)
  then have "take k (root @ r) = root @ take (k - length root) r" by simp
  with assms show ?thesis by simp
qed

lemma copy_step_ready:
  assumes u1: "\<forall>q. fs1 q = fs q \<or>
                (fs q = None \<and> fs1 q = Some Dir \<and> (\<exists>k<length (root @ r). q = take k (root @ r)))"
    and g: "g \<noteq> []" and gr: "g \<noteq> r"
    and pf1: "\<forall>k<length g. r \<noteq> take k g" and pf2: "\<forall>k<length r. g \<noteq> take k r"
    and rdy: "ready fs root g"
  shows "ready (fs1(root @ r \<mapsto> File d)) root g"
  unfolding ready_def
proof (intro conjI allI impI)
  fix k d'
  assume k: "k < length g"
  let ?x = "root @ take k g"
  from pf1 k have ne: "?x \<noteq> root @ r" by auto
  from rdy k have nf: "node_at fs ?x \<noteq> Some (File d')" by (simp add: ready_def)
  show "node_at (fs1(root @ r \<mapsto> File d)) ?x \<noteq> Some (File d')"
  proof (cases "?x = []")
    case True
    then show ?thesis by (simp add: node_at_def)
  next
    case False
    from nf have "fs ?x \<noteq> Some (File d')" by (simp add: node_at_nonempty [OF False])
    moreover from u1 have "fs1 ?x = fs ?x \<or> fs1 ?x = Some Dir" by blast
    ultimately have "fs1 ?x \<noteq> Some (File d')" by auto
    with ne show ?thesis by (simp add: node_at_nonempty [OF False])
  qed
next
  let ?x = "root @ g"
  have xne: "?x \<noteq> []" using g by simp
  from gr have ne: "?x \<noteq> root @ r" by simp
  from rdy have "fs ?x \<noteq> Some Dir" by (simp add: ready_def node_at_nonempty [OF xne])
  moreover have "\<not> (\<exists>k<length (root @ r). ?x = take k (root @ r))"
  proof
    assume "\<exists>k<length (root @ r). ?x = take k (root @ r)"
    then obtain k where k: "k < length (root @ r)" and eq: "?x = take k (root @ r)" by blast
    from append_eq_take_append [OF eq] have gt: "g = take (k - length root) r" .
    show False
    proof (cases "k - length root < length r")
      case True
      with pf2 gt show False by blast
    next
      case False
      with gt have "g = r" by simp
      with gr show False by simp
    qed
  qed
  ultimately have "fs1 ?x \<noteq> Some Dir" using u1 by metis
  with ne show "node_at (fs1(root @ r \<mapsto> File d)) ?x \<noteq> Some Dir"
    by (simp add: node_at_nonempty [OF xne])
qed

lemma copy_step_clear:
  assumes u1: "\<forall>q. fs1 q = fs q \<or>
                (fs q = None \<and> fs1 q = Some Dir \<and> (\<exists>k<length (root @ r). q = take k (root @ r)))"
    and r: "r \<noteq> []" and clear: "root_clear fs root"
  shows "root_clear (fs1(root @ r \<mapsto> File d)) root"
  unfolding root_clear_def
proof (intro allI impI)
  fix k d'
  assume k: "k \<le> length root"
  let ?x = "take k root"
  have ne: "?x \<noteq> root @ r"
  proof
    assume "?x = root @ r"
    then have "length ?x = length (root @ r)" by (rule arg_cong)
    moreover have "0 < length r" using r by simp
    ultimately show False by (simp add: min_def split: if_splits)
  qed
  from clear k have nf: "node_at fs ?x \<noteq> Some (File d')" by (simp add: root_clear_def)
  show "node_at (fs1(root @ r \<mapsto> File d)) ?x \<noteq> Some (File d')"
  proof (cases "?x = []")
    case True
    then show ?thesis by (simp add: node_at_def)
  next
    case False
    from nf have "fs ?x \<noteq> Some (File d')" by (simp add: node_at_nonempty [OF False])
    moreover from u1 have "fs1 ?x = fs ?x \<or> fs1 ?x = Some Dir" by blast
    ultimately have "fs1 ?x \<noteq> Some (File d')" by auto
    with ne show ?thesis by (simp add: node_at_nonempty [OF False])
  qed
qed


text \<open>
  The copy loop on a listing of distinct files, none a directory of another, over a target
  that is ready for each of them: it ends normally, every file outside the legacy backend
  directory is in the target under its relative path, and files elsewhere are untouched.
\<close>

lemma copy_loop_ok:
  assumes "dotdot \<notin> set root" and "listing_ok files"
    and "root_clear fs root" and "\<forall>g \<in> set files. ready fs root (rel_parts g)"
  shows "\<exists>fs'. copy_loop root files fs st =
            (fs', Inr (st\<lparr>copied := copied st +
                 length (filter (\<lambda>f. \<not> under_convex (rel_parts f)) files)\<rparr>)) \<and>
          (\<forall>f \<in> set files. \<not> under_convex (rel_parts f) \<longrightarrow>
             fs' (root @ rel_parts f) = Some (File (file_data f))) \<and>
          (\<forall>q d. fs q = Some (File d) \<and> (\<forall>f \<in> set files. q \<noteq> root @ rel_parts f) \<longrightarrow>
             fs' q = Some (File d))"
  using assms
proof (induction files arbitrary: fs st)
  case Nil
  then show ?case by simp
next
  case (Cons f files)
  from Cons.prems(2) have lo: "listing_ok files"
    by (auto simp: listing_ok_def)
  from Cons.prems(2) have f: "rel_parts f \<noteq> []" "dotdot \<notin> set (rel_parts f)"
    by (auto simp: listing_ok_def)
  show ?case
  proof (cases "under_convex (rel_parts f)")
    case True
    from Cons.IH [OF Cons.prems(1) lo Cons.prems(3), of st] Cons.prems(4)
    obtain fs' where
      r: "copy_loop root files fs st =
            (fs', Inr (st\<lparr>copied := copied st +
                 length (filter (\<lambda>f. \<not> under_convex (rel_parts f)) files)\<rparr>))"
      and a: "\<forall>f \<in> set files. \<not> under_convex (rel_parts f) \<longrightarrow>
             fs' (root @ rel_parts f) = Some (File (file_data f))"
      and b: "\<forall>q d. fs q = Some (File d) \<and> (\<forall>f \<in> set files. q \<noteq> root @ rel_parts f) \<longrightarrow>
             fs' q = Some (File d)"
      by auto
    from True r have "copy_loop root (f # files) fs st =
            (fs', Inr (st\<lparr>copied := copied st +
                 length (filter (\<lambda>f. \<not> under_convex (rel_parts f)) (f # files))\<rparr>))"
      by (simp add: under_convex_def)
    moreover from True a have "\<forall>g \<in> set (f # files). \<not> under_convex (rel_parts g) \<longrightarrow>
             fs' (root @ rel_parts g) = Some (File (file_data g))" by simp
    moreover from b have "\<forall>q d. fs q = Some (File d) \<and> (\<forall>g \<in> set (f # files). q \<noteq> root @ rel_parts g) \<longrightarrow>
             fs' q = Some (File d)" by simp
    ultimately show ?thesis by blast
  next
    case False
    let ?r = "rel_parts f"
    let ?st1 = "st\<lparr>copied := copied st + 1\<rparr>"
    from Cons.prems(4) have rdy: "ready fs root ?r" by simp
    from copy_file_ok [OF Cons.prems(1) f Cons.prems(3) rdy] obtain fs1 where
      cf: "copy_file root f fs = (fs1(root @ ?r \<mapsto> File (file_data f)), None)"
      and u1: "\<forall>q. fs1 q = fs q \<or>
                (fs q = None \<and> fs1 q = Some Dir \<and> (\<exists>k<length (root @ ?r). q = take k (root @ ?r)))"
      by blast
    let ?fs2 = "fs1(root @ ?r \<mapsto> File (file_data f))"
    have clear2: "root_clear ?fs2 root"
      using u1 f(1) Cons.prems(3) by (rule copy_step_clear)
    have ready2: "\<forall>g \<in> set files. ready ?fs2 root (rel_parts g)"
    proof
      fix g assume g: "g \<in> set files"
      with Cons.prems(2) have g1: "rel_parts g \<noteq> []"
        and g3: "\<forall>k<length (rel_parts g). ?r \<noteq> take k (rel_parts g)"
        and g4: "\<forall>k<length ?r. rel_parts g \<noteq> take k ?r"
        by (auto simp: listing_ok_def)
      from Cons.prems(2) have "?r \<notin> rel_parts ` set files" by (simp add: listing_ok_def)
      with g have g2: "rel_parts g \<noteq> ?r" by (metis imageI)
      from g Cons.prems(4) have "ready fs root (rel_parts g)" by simp
      with u1 g1 g2 g3 g4 show "ready ?fs2 root (rel_parts g)" by (rule copy_step_ready)
    qed
    from Cons.IH [OF Cons.prems(1) lo clear2 ready2, of ?st1]
    obtain fs' where
      r: "copy_loop root files ?fs2 ?st1 =
            (fs', Inr (?st1\<lparr>copied := copied ?st1 +
                 length (filter (\<lambda>f. \<not> under_convex (rel_parts f)) files)\<rparr>))"
      and a: "\<forall>f \<in> set files. \<not> under_convex (rel_parts f) \<longrightarrow>
             fs' (root @ rel_parts f) = Some (File (file_data f))"
      and b: "\<forall>q d. ?fs2 q = Some (File d) \<and> (\<forall>f \<in> set files. q \<noteq> root @ rel_parts f) \<longrightarrow>
             fs' q = Some (File d)"
      by blast
    have nc: "hd ?r \<noteq> convex" using False f(1) by (simp add: under_convex_def)
    have run: "copy_loop root (f # files) fs st =
            (fs', Inr (st\<lparr>copied := copied st +
                 length (filter (\<lambda>f. \<not> under_convex (rel_parts f)) (f # files))\<rparr>))"
      using nc cf r False by (simp del: fun_upd_apply)
    have "?r \<notin> rel_parts ` set files" using Cons.prems(2) by (simp add: listing_ok_def)
    then have "\<forall>g \<in> set files. root @ ?r \<noteq> root @ rel_parts g" by (metis imageI same_append_eq)
    with b have ff: "fs' (root @ ?r) = Some (File (file_data f))" by simp
    have all: "\<forall>g \<in> set (f # files). \<not> under_convex (rel_parts g) \<longrightarrow>
             fs' (root @ rel_parts g) = Some (File (file_data g))"
      using ff a by simp
    have frame: "\<forall>q d. fs q = Some (File d) \<and> (\<forall>g \<in> set (f # files). q \<noteq> root @ rel_parts g) \<longrightarrow>
             fs' q = Some (File d)"
    proof (intro allI impI)
      fix q d assume q: "fs q = Some (File d) \<and> (\<forall>g \<in> set (f # files). q \<noteq> root @ rel_parts g)"
      with u1 have "fs1 q = Some (File d)" by (metis option.distinct(1))
      with q have "?fs2 q = Some (File d)" by simp
      with q b show "fs' q = Some (File d)" by simp
    qed
    from run all frame show ?thesis by blast
  qed
qed


lemma empty_ready:
  assumes "root_clear fs root" and "empty_below fs root" and "g \<noteq> []"
  shows "ready fs root g"
  unfolding ready_def
proof (intro conjI allI impI)
  fix k d assume "k < length g"
  show "node_at fs (root @ take k g) \<noteq> Some (File d)"
  proof (cases "take k g = []")
    case True
    from assms(1) have "node_at fs (take (length root) root) \<noteq> Some (File d)"
      unfolding root_clear_def by blast
    then have "node_at fs (root @ []) \<noteq> Some (File d)" by simp
    then show ?thesis unfolding True .
  next
    case False
    with assms(2) have "fs (root @ take k g) = None" by (simp add: empty_below_def)
    then show ?thesis by (simp add: node_at_def)
  qed
next
  from assms(2,3) have "fs (root @ g) = None" by (simp add: empty_below_def)
  with assms(3) show "node_at fs (root @ g) \<noteq> Some Dir" by (simp add: node_at_def)
qed

section \<open>Applying the changes\<close>




text \<open>
  C6: the copy loop passes over the source files whose first path segment is the legacy
  backend directory: it behaves as on the list without them, and counts the others as
  copied; on a target that starts empty it ends normally with every other file of the
  listing in the target under its relative path. So a location under the legacy backend
  directory of the target that holds no file before the run, and that no write operation
  names, holds no file after it, whether the run ends normally or with an error.
\<close>

theorem C6_legacy_backend_excluded:
  assumes "\<forall>f \<in> set files. rel_parts f \<noteq> [] \<and> dotdot \<notin> set (rel_parts f)"
    and "dotdot \<notin> set root"
    and "under_convex rel"
    and "\<not> holds_file fs (root @ rel)"
    and "\<forall>c \<in> set ops. action c = ''write'' \<longrightarrow> lexical (joinpath root (path c)) \<noteq> root @ rel"
  shows "copy_loop root files fs st =
           copy_loop root (filter (\<lambda>f. \<not> under_convex (rel_parts f)) files) fs st \<and>
         (\<forall>fs1 st1. copy_loop root files fs st = (fs1, Inr st1) \<longrightarrow>
            copied st1 = copied st + length (filter (\<lambda>f. \<not> under_convex (rel_parts f)) files)) \<and>
         (listing_ok files \<and> root_clear fs root \<and> empty_below fs root \<longrightarrow>
            (\<exists>fs1 st1. copy_loop root files fs st = (fs1, Inr st1) \<and>
               (\<forall>f \<in> set files. \<not> under_convex (rel_parts f) \<longrightarrow>
                  fs1 (root @ rel_parts f) = Some (File (file_data f))))) \<and>
         \<not> holds_file (fst (step_apply_changes files root ops False fs)) (root @ rel)"
proof (intro conjI allI impI)
  show "copy_loop root files fs st =
      copy_loop root (filter (\<lambda>f. \<not> under_convex (rel_parts f)) files) fs st"
    by (rule copy_loop_filter)
next
  fix fs1 st1
  assume "copy_loop root files fs st = (fs1, Inr st1)"
  then show "copied st1 = copied st + length (filter (\<lambda>f. \<not> under_convex (rel_parts f)) files)"
    by (rule copy_loop_count)
next
  assume a: "listing_ok files \<and> root_clear fs root \<and> empty_below fs root"
  then have "\<forall>g \<in> set files. ready fs root (rel_parts g)"
    using assms(1) by (auto intro: empty_ready)
  from copy_loop_ok [OF assms(2) _ _ this, of st] a
  show "\<exists>fs1 st1. copy_loop root files fs st = (fs1, Inr st1) \<and>
               (\<forall>f \<in> set files. \<not> under_convex (rel_parts f) \<longrightarrow>
                  fs1 (root @ rel_parts f) = Some (File (file_data f)))"
    by blast
next
  let ?st0 = "\<lparr>copied = 0, written = 0, deleted = 0, skipped = 0\<rparr>"
  obtain fs1 r1 where c: "copy_loop root files fs ?st0 = (fs1, r1)"
    by (cases "copy_loop root files fs ?st0")
  from copy_loop_holds [OF assms(1,2,3,4), of ?st0] c
  have keep: "\<not> holds_file fs1 (root @ rel)" by simp
  show "\<not> holds_file (fst (step_apply_changes files root ops False fs)) (root @ rel)"
  proof (cases r1)
    case (Inl e)
    with c keep show ?thesis by (simp add: step_apply_changes_def)
  next
    case (Inr st1)
    from apply_loop_holds [OF assms(5) keep, of st1] c Inr show ?thesis
      by (simp add: step_apply_changes_def)
  qed
qed

theorem C6_legacy_backend_excluded_witness:
  "copy_loop [str ''t'']
      [\<lparr>rel_parts = [str ''App.tsx''], file_data = str ''app''\<rparr>,
       \<lparr>rel_parts = [str ''convex'', str ''schema.ts''], file_data = str ''schema''\<rparr>,
       \<lparr>rel_parts = [str ''src'', str ''api.ts''], file_data = str ''api''\<rparr>]
      (Map.empty([str ''t''] \<mapsto> Dir)) \<lparr>copied = 0, written = 0, deleted = 0, skipped = 0\<rparr> =
    copy_loop [str ''t'']
      [\<lparr>rel_parts = [str ''App.tsx''], file_data = str ''app''\<rparr>,
       \<lparr>rel_parts = [str ''src'', str ''api.ts''], file_data = str ''api''\<rparr>]
      (Map.empty([str ''t''] \<mapsto> Dir)) \<lparr>copied = 0, written = 0, deleted = 0, skipped = 0\<rparr> \<and>
   snd (step_apply_changes
          [\<lparr>rel_parts = [str ''App.tsx''], file_data = str ''app''\<rparr>,
           \<lparr>rel_parts = [str ''convex'', str ''schema.ts''], file_data = str ''schema''\<rparr>,
           \<lparr>rel_parts = [str ''src'', str ''api.ts''], file_data = str ''api''\<rparr>]
          [str ''t'']
          [\<lparr>action = ''write'', path = str ''supabase/config.ts'', content = str ''cfg''\<rparr>]
          False (Map.empty([str ''t''] \<mapsto> Dir))) =
     Inr \<lparr>copied = 2, written = 1, deleted = 0, skipped = 0\<rparr> \<and>
   fst (step_apply_changes
          [\<lparr>rel_parts = [str ''App.tsx''], file_data = str ''app''\<rparr>,
           \<lparr>rel_parts = [str ''convex'', str ''schema.ts''], file_data = str ''schema''\<rparr>,
           \<lparr>rel_parts = [str ''src'', str ''api.ts''], file_data = str ''api''\<rparr>]
          [str ''t'']
          [\<lparr>action = ''write'', path = str ''supabase/config.ts'', content = str ''cfg''\<rparr>]
          False (Map.empty([str ''t''] \<mapsto> Dir))) [str ''t'', str ''src'', str ''api.ts''] =
     Some (File (str ''api'')) \<and>
   \<not> holds_file (fst (step_apply_changes
          [\<lparr>rel_parts = [str ''App.tsx''], file_data = str ''app''\<rparr>,
           \<lparr>rel_parts = [str ''convex'', str ''schema.ts''], file_data = str ''schema''\<rparr>,
           \<lparr>rel_parts = [str ''src'', str ''api.ts''], file_data = str ''api''\<rparr>]
          [str ''t'']
          [\<lparr>action = ''write'', path = str ''supabase/config.ts'', content = str ''cfg''\<rparr>]
          False (Map.empty([str ''t''] \<mapsto> Dir)))) ([str ''t''] @ [str ''convex'', str ''schema.ts''])"
proof -
  let ?files = "[\<lparr>rel_parts = [str ''App.tsx''], file_data = str ''app''\<rparr>,
           \<lparr>rel_parts = [str ''convex'', str ''schema.ts''], file_data = str ''schema''\<rparr>,
           \<lparr>rel_parts = [str ''src'', str ''api.ts''], file_data = str ''api''\<rparr>]"
  let ?ops = "[\<lparr>action = ''write'', path = str ''supabase/config.ts'', content = str ''cfg''\<rparr>]"
  let ?fs = "Map.empty([str ''t''] \<mapsto> Dir)"
  let ?st = "\<lparr>copied = 0, written = 0, deleted = 0, skipped = 0\<rparr>"
  have h1: "\<forall>f \<in> set ?files. rel_parts f \<noteq> [] \<and> dotdot \<notin> set (rel_parts f)"
    by (simp add: dotdot_def str_def)
  have h2: "dotdot \<notin> set [str ''t'']"
    by (simp add: dotdot_def str_def)
  have h3: "under_convex [str ''convex'', str ''schema.ts'']"
    by (simp add: under_convex_def convex_def)
  have h4: "\<not> holds_file ?fs ([str ''t''] @ [str ''convex'', str ''schema.ts''])"
    by (simp add: holds_file_def str_def)
  have h5: "\<forall>c \<in> set ?ops. action c = ''write'' \<longrightarrow>
      lexical (joinpath [str ''t''] (path c)) \<noteq> [str ''t''] @ [str ''convex'', str ''schema.ts'']"
    by (simp add: lexical_def fs_eval)
  have h6: "listing_ok ?files"
    by (simp add: listing_ok_def dotdot_def str_def less_Suc_eq numeral_2_eq_2)
  have h7: "root_clear ?fs [str ''t'']"
    by (simp add: root_clear_def node_at_def le_Suc_eq)
  have h8: "empty_below ?fs [str ''t'']"
    by (simp add: empty_below_def)
  have f: "filter (\<lambda>f. \<not> under_convex (rel_parts f)) ?files =
      [\<lparr>rel_parts = [str ''App.tsx''], file_data = str ''app''\<rparr>,
       \<lparr>rel_parts = [str ''src'', str ''api.ts''], file_data = str ''api''\<rparr>]"
    by (simp add: under_convex_def convex_def str_def)
  have r: "snd (step_apply_changes ?files [str ''t''] ?ops False ?fs) =
      Inr \<lparr>copied = 2, written = 1, deleted = 0, skipped = 0\<rparr>"
    by (simp add: fs_eval)
  have a: "fst (step_apply_changes ?files [str ''t''] ?ops False ?fs) [str ''t'', str ''src'', str ''api.ts''] =
      Some (File (str ''api''))"
    by (simp add: fs_eval)
  from C6_legacy_backend_excluded [OF h1 h2 h3 h4 h5, of ?st] h6 h7 h8 r a show ?thesis
    unfolding f by blast
qed

end
